theory Spec2Isabelle
  imports Main "HOL-Library.AList"
begin

section \<open>flash-cache: the data model\<close>

text \<open>
  The embedding follows \<^verbatim>\<open>src/src/flash-cache.js\<close>: the class \<^verbatim>\<open>flashCache\<close> with its
  methods put, get, remove and dispose. Keys are strings. Payloads are JSON-like
  JavaScript values; numbers, timestamps and durations are integers (fractions, NaN and
  the infinities are not modelled). Arguments that the caller leaves out (JavaScript's
  \<^verbatim>\<open>undefined\<close>) are written with \<open>option\<close> or a constructor of their own, so that the
  default parameters of the source are branches of the model. The cache never changes
  an entry object after it has built it; a client that writes to an entry it got back is
  outside the model.
\<close>

datatype jsval = JNull | JBool bool | JNum int | JStr string | JObj "(string \<times> jsval) list"

text \<open>The object literal \<^verbatim>\<open>{ value, time, expiryAt }\<close> of \<^verbatim>\<open>put\<close>; \<open>expiryAt = None\<close> is null.\<close>

record entry =
  "value" :: jsval
  time :: int
  expiryAt :: "int option"

text \<open>
  What the property read \<^verbatim>\<open>this.cacheStore[key]\<close> can yield. \<^verbatim>\<open>cacheStore\<close> is the
  object literal \<^verbatim>\<open>{}\<close>, so a read that finds no own property continues along the
  prototype chain and may yield a method of \<^verbatim>\<open>Object.prototype\<close>, the prototype object
  itself (the getter of \<^verbatim>\<open>__proto__\<close>), or a field of an entry that was made the
  prototype by an assignment to \<^verbatim>\<open>__proto__\<close>.
\<close>

datatype looked_up =
    Undefined
  | Target entry
  | Builtin string
  | ObjectPrototype
  | Plain jsval

text \<open>The third argument of \<^verbatim>\<open>put\<close> and the configuration value \<^verbatim>\<open>defaultCacheExpiryIn\<close>.\<close>

datatype expiry_in = TUndefined | TNull | TFalse | TNum int

text \<open>
  Modelled from the spec: the event names of \<^verbatim>\<open>./constants/events\<close>, which is not among
  the sources. The constructors carry the names the source uses; section 6 of the
  specification calls them added, fetched, removed, expired and cleared, the first four
  with the payload \<^verbatim>\<open>{ key, data }\<close> and the last with \<^verbatim>\<open>{}\<close>.
\<close>

datatype event =
    FC_ADD string entry
  | FC_GET string looked_up
  | FC_REMOVE string looked_up
  | FC_EXPIRY string entry
  | FC_CLEAR

text \<open>The closure \<^verbatim>\<open>onExpire\<close> of \<^verbatim>\<open>put\<close> captures \<^verbatim>\<open>key\<close> and \<^verbatim>\<open>target\<close>.\<close>

datatype callback = OnExpire string entry

datatype error = UseAfterDispose

record config =
  defaultCacheExpiryIn :: expiry_in
  expiryCheckInterval :: int

text \<open>The argument of the constructor: an object that may have either option.\<close>

record options =
  option_defaultCacheExpiryIn :: "expiry_in option"
  option_expiryCheckInterval :: "int option"

text \<open>
  Modelled from the spec: the class \<^verbatim>\<open>Expirer\<close> of \<^verbatim>\<open>./expirer\<close>, which is not among the
  sources. Section 4.2 of the specification describes its index as a mapping from
  (timestamp, key) pairs to callbacks that holds each pair at most once, and a periodic
  loop that is stopped by \<^verbatim>\<open>dispose\<close>.
\<close>

record expirer =
  queue :: "((int \<times> string) \<times> callback) list"
  running :: bool

record cache =
  cacheStore :: "(string \<times> entry) list"
  cacheStoreProto :: "entry option"
  config :: config
  instanceDisposed :: bool
  cacheExpirer :: expirer
  emitted :: "event list"

section \<open>JavaScript objects\<close>

fun truthy_val :: "jsval \<Rightarrow> bool" where
  "truthy_val JNull = False"
| "truthy_val (JBool b) = b"
| "truthy_val (JNum n) = (n \<noteq> 0)"
| "truthy_val (JStr s) = (s \<noteq> [])"
| "truthy_val (JObj ps) = True"

fun truthy :: "looked_up \<Rightarrow> bool" where
  "truthy Undefined = False"
| "truthy (Target e) = True"
| "truthy (Builtin n) = True"
| "truthy ObjectPrototype = True"
| "truthy (Plain v) = truthy_val v"

fun truthy_expiry_in :: "expiry_in \<Rightarrow> bool" where
  "truthy_expiry_in (TNum n) = (n \<noteq> 0)"
| "truthy_expiry_in _ = False"

text \<open>The function-valued properties of \<^verbatim>\<open>Object.prototype\<close>.\<close>

definition object_prototype_methods :: "string list" where
  "object_prototype_methods =
     [''constructor'', ''__defineGetter__'', ''__defineSetter__'', ''hasOwnProperty'',
      ''__lookupGetter__'', ''__lookupSetter__'', ''isPrototypeOf'',
      ''propertyIsEnumerable'', ''toString'', ''valueOf'', ''toLocaleString'']"

text \<open>
  A read that reaches \<^verbatim>\<open>Object.prototype\<close>; \<open>proto\<close> is the prototype of the object the
  read started from, which the getter of \<^verbatim>\<open>__proto__\<close> returns.
\<close>

definition object_prototype_get :: "looked_up \<Rightarrow> string \<Rightarrow> looked_up" where
  "object_prototype_get proto key =
     (if key = ''__proto__'' then proto
      else if key \<in> set object_prototype_methods then Builtin key
      else Undefined)"

text \<open>The property read \<^verbatim>\<open>target.expiryAt\<close>, here for an entry.\<close>

definition expiryAt_val :: "entry \<Rightarrow> jsval" where
  "expiryAt_val e = (case expiryAt e of None \<Rightarrow> JNull | Some t \<Rightarrow> JNum t)"

text \<open>
  A read that finds no own property and continues with the prototype of the store: an
  entry that was made the prototype (its three own fields, then \<^verbatim>\<open>Object.prototype\<close>),
  or \<^verbatim>\<open>Object.prototype\<close> itself.
\<close>

definition prototype_get :: "entry option \<Rightarrow> string \<Rightarrow> looked_up" where
  "prototype_get proto key =
     (case proto of
        None \<Rightarrow> object_prototype_get ObjectPrototype key
      | Some p \<Rightarrow>
          if key = ''value'' then Plain (value p)
          else if key = ''time'' then Plain (JNum (time p))
          else if key = ''expiryAt'' then Plain (expiryAt_val p)
          else object_prototype_get (Target p) key)"

text \<open>\<^verbatim>\<open>this.cacheStore[key]\<close>: own properties first, then the prototype chain.\<close>

definition store_get :: "string \<Rightarrow> cache \<Rightarrow> looked_up" where
  "store_get key s =
     (case map_of (cacheStore s) key of
        Some e \<Rightarrow> Target e
      | None \<Rightarrow> prototype_get (cacheStoreProto s) key)"

text \<open>
  \<^verbatim>\<open>this.cacheStore[key] = target\<close>: an own property is overwritten; otherwise the setter
  of \<^verbatim>\<open>__proto__\<close>, inherited from \<^verbatim>\<open>Object.prototype\<close>, replaces the prototype of the
  store by \<open>target\<close>, and every other key becomes a new own property (the inherited data
  properties are writable), last in the enumeration order.
\<close>

definition store_set :: "string \<Rightarrow> entry \<Rightarrow> cache \<Rightarrow> cache" where
  "store_set key target s =
     (if key \<in> fst ` set (cacheStore s) then s\<lparr>cacheStore := AList.update key target (cacheStore s)\<rparr>
      else if key = ''__proto__'' then s\<lparr>cacheStoreProto := Some target\<rparr>
      else s\<lparr>cacheStore := cacheStore s @ [(key, target)]\<rparr>)"

text \<open>\<^verbatim>\<open>delete this.cacheStore[key]\<close> removes an own property and nothing else.\<close>

definition store_delete :: "string \<Rightarrow> cache \<Rightarrow> cache" where
  "store_delete key s = s\<lparr>cacheStore := AList.delete key (cacheStore s)\<rparr>"

text \<open>
  \<^verbatim>\<open>const { expiryAt } = target\<close> for a truthy \<open>target\<close>; \<open>None\<close> is \<^verbatim>\<open>undefined\<close>. Neither
  functions nor the wrappers of primitive values have a property of that name.
\<close>

fun expiryAt_of :: "looked_up \<Rightarrow> jsval option" where
  "expiryAt_of (Target e) = Some (expiryAt_val e)"
| "expiryAt_of (Plain (JObj ps)) = map_of ps ''expiryAt''"
| "expiryAt_of _ = None"

text \<open>
  \<^verbatim>\<open>Object.keys(this.cacheStore)\<close>: the own enumerable properties, here in the order of
  their creation (JavaScript lists keys that are array indices first).
\<close>

definition store_keys :: "cache \<Rightarrow> string list" where
  "store_keys s = map fst (cacheStore s)"

text \<open>
  \<^verbatim>\<open>this.emit\<close> is the emitter of the library mitt, which calls the subscribers of the
  event one after the other. The model records the event in the sequence of the events
  emitted so far; the subscribers, and what they may do to the cache, are outside it.
\<close>

definition emit :: "event \<Rightarrow> cache \<Rightarrow> cache" where
  "emit ev s = s\<lparr>emitted := emitted s @ [ev]\<rparr>"

section \<open>The Expirer\<close>

text \<open>
  Modelled from the spec: \<^verbatim>\<open>Expirer.add\<close>, which "inserts/overwrites the
  (expiryAt, key) -> callback registration".
\<close>

definition expirer_add :: "int \<Rightarrow> string \<Rightarrow> callback \<Rightarrow> expirer \<Rightarrow> expirer" where
  "expirer_add t key cb x = x\<lparr>queue := AList.update (t, key) cb (queue x)\<rparr>"

text \<open>
  Modelled from the spec: \<^verbatim>\<open>Expirer.remove\<close>, which "deletes the (expiryAt, key)
  registration if present; no-op (not an error) if absent" and is "a guaranteed no-op"
  when \<open>expiryAt\<close> is null or absent.
\<close>

definition expirer_remove :: "jsval option \<Rightarrow> string \<Rightarrow> expirer \<Rightarrow> expirer" where
  "expirer_remove t key x =
     (case t of
        Some (JNum n) \<Rightarrow> x\<lparr>queue := AList.delete (n, key) (queue x)\<rparr>
      | _ \<Rightarrow> x)"

text \<open>
  Modelled from the spec: \<^verbatim>\<open>Expirer.dispose\<close>, which "stops the periodic loop and releases
  the index".
\<close>

definition expirer_dispose :: "expirer \<Rightarrow> expirer" where
  "expirer_dispose x = x\<lparr>queue := [], running := False\<rparr>"

text \<open>Modelled from the spec: the registrations a tick at time \<open>now\<close> finds due.\<close>

definition due :: "int \<Rightarrow> (int \<times> string) \<times> callback \<Rightarrow> bool" where
  "due now r = (fst (fst r) \<le> now)"

section \<open>The cache\<close>

text \<open>The class field \<^verbatim>\<open>defaultConfig\<close>.\<close>

definition defaultConfig :: config where
  "defaultConfig = \<lparr>defaultCacheExpiryIn = TNum 60000, expiryCheckInterval = 100\<rparr>"

text \<open>
  The constructor. \<^verbatim>\<open>{ ...this.defaultConfig, ...config }\<close> takes each option that the
  argument has and the default for the others; the store starts as \<^verbatim>\<open>{}\<close>, whose
  prototype is \<^verbatim>\<open>Object.prototype\<close>; the new Expirer has an empty index and a running
  loop.
\<close>

definition flashCache :: "options \<Rightarrow> cache" where
  "flashCache opts =
     \<lparr>cacheStore = [], cacheStoreProto = None,
      config =
        \<lparr>defaultCacheExpiryIn =
           (case option_defaultCacheExpiryIn opts of
              None \<Rightarrow> defaultCacheExpiryIn defaultConfig | Some x \<Rightarrow> x),
         expiryCheckInterval =
           (case option_expiryCheckInterval opts of
              None \<Rightarrow> expiryCheckInterval defaultConfig | Some i \<Rightarrow> i)\<rparr>,
      instanceDisposed = False,
      cacheExpirer = \<lparr>queue = [], running = True\<rparr>, emitted = []\<rparr>"

text \<open>The default argument \<^verbatim>\<open>config = {}\<close> of the constructor.\<close>

definition no_options :: options where
  "no_options = \<lparr>option_defaultCacheExpiryIn = None, option_expiryCheckInterval = None\<rparr>"

definition checkIfInstanceIsDisposed :: "cache \<Rightarrow> error option" where
  "checkIfInstanceIsDisposed s = (if instanceDisposed s then Some UseAfterDispose else None)"

text \<open>\<^verbatim>\<open>expiryIn ? time + expiryIn : null\<close>, where \<open>now\<close> is the value of \<^verbatim>\<open>time\<close>.\<close>

definition expiryAt_for :: "expiry_in \<Rightarrow> int \<Rightarrow> int option" where
  "expiryAt_for expiryIn now =
     (if truthy_expiry_in expiryIn
      then (case expiryIn of TNum n \<Rightarrow> Some (now + n) | _ \<Rightarrow> None)
      else None)"

text \<open>
  Every operation returns its result, or the error it throws, and the state it leaves.

  \<^verbatim>\<open>remove(key, shouldEmit = false)\<close>, under the name \<open>remove_key\<close> since \<open>remove\<close> is a
  constant of HOL.
\<close>

definition remove_key :: "string \<Rightarrow> bool \<Rightarrow> cache \<Rightarrow> (error + bool) \<times> cache" where
  "remove_key key shouldEmit s =
     (case checkIfInstanceIsDisposed s of
        Some err \<Rightarrow> (Inl err, s)
      | None \<Rightarrow>
          let target = store_get key s in
          if truthy target then
            let s1 = store_delete key s;
                s2 = s1\<lparr>cacheExpirer := expirer_remove (expiryAt_of target) key (cacheExpirer s1)\<rparr>;
                s3 = (if shouldEmit then emit (FC_REMOVE key target) s2 else s2)
            in (Inr True, s3)
          else (Inr False, s))"

text \<open>
  \<^verbatim>\<open>put(key, value = "", expiryIn = this.config.defaultCacheExpiryIn)\<close> at the time
  \<open>now\<close> that \<^verbatim>\<open>Date.now()\<close> returns; \<open>value = None\<close> is an argument left out.
\<close>

definition put :: "string \<Rightarrow> jsval option \<Rightarrow> expiry_in \<Rightarrow> int \<Rightarrow> cache \<Rightarrow> (error + entry) \<times> cache" where
  "put key val expiryIn now s =
     (case checkIfInstanceIsDisposed s of
        Some err \<Rightarrow> (Inl err, s)
      | None \<Rightarrow>
          let v = (case val of None \<Rightarrow> JStr [] | Some v \<Rightarrow> v);
              ttl = (if expiryIn = TUndefined then defaultCacheExpiryIn (config s) else expiryIn);
              s1 = (if truthy (store_get key s) then snd (remove_key key False s) else s);
              expiry = expiryAt_for ttl now;
              target = \<lparr>value = v, time = now, expiryAt = expiry\<rparr>;
              s2 = store_set key target s1;
              s3 = (case expiry of
                      Some t \<Rightarrow>
                        if truthy_val (JNum t)
                        then s2\<lparr>cacheExpirer := expirer_add t key (OnExpire key target) (cacheExpirer s2)\<rparr>
                        else s2
                    | None \<Rightarrow> s2);
              s4 = emit (FC_ADD key target) s3
          in (Inr target, s4))"

text \<open>
  The two halves of \<^verbatim>\<open>put\<close> by name, for stating what each does: the entry that
  \<^verbatim>\<open>put\<close> builds, and the installation of that entry (the assignment to the store, the
  registration with the Expirer and the event) in the state that the removal of the old
  entry leaves. Lemma \<open>put_install\<close> shows that \<^verbatim>\<open>put\<close> is their composition.
\<close>

definition new_entry :: "jsval option \<Rightarrow> expiry_in \<Rightarrow> int \<Rightarrow> cache \<Rightarrow> entry" where
  "new_entry val expiryIn now s =
     \<lparr>value = (case val of None \<Rightarrow> JStr [] | Some v \<Rightarrow> v), time = now,
      expiryAt = expiryAt_for (if expiryIn = TUndefined then defaultCacheExpiryIn (config s) else expiryIn) now\<rparr>"

definition install :: "string \<Rightarrow> entry \<Rightarrow> cache \<Rightarrow> cache" where
  "install key target s1 =
     (let s2 = store_set key target s1;
          s3 = (case expiryAt target of
                  Some t \<Rightarrow>
                    if truthy_val (JNum t)
                    then s2\<lparr>cacheExpirer := expirer_add t key (OnExpire key target) (cacheExpirer s2)\<rparr>
                    else s2
                | None \<Rightarrow> s2)
      in emit (FC_ADD key target) s3)"

text \<open>\<^verbatim>\<open>get(key)\<close>; the result \<open>Plain JNull\<close> is the \<^verbatim>\<open>null\<close> of a miss.\<close>

definition get :: "string \<Rightarrow> cache \<Rightarrow> (error + looked_up) \<times> cache" where
  "get key s =
     (case checkIfInstanceIsDisposed s of
        Some err \<Rightarrow> (Inl err, s)
      | None \<Rightarrow>
          let target = store_get key s in
          if truthy target then (Inr target, emit (FC_GET key target) s)
          else (Inr (Plain JNull), s))"

text \<open>
  \<^verbatim>\<open>dispose()\<close>. The callback of \<^verbatim>\<open>forEach\<close> passes the key alone to \<^verbatim>\<open>remove\<close>, so each
  removal is silent.
\<close>

definition dispose :: "cache \<Rightarrow> (error + bool) \<times> cache" where
  "dispose s =
     (case checkIfInstanceIsDisposed s of
        Some err \<Rightarrow> (Inl err, s)
      | None \<Rightarrow>
          let s1 = fold (\<lambda>key s'. snd (remove_key key False s')) (store_keys s) s;
              s2 = emit FC_CLEAR s1;
              s3 = s2\<lparr>cacheExpirer := expirer_dispose (cacheExpirer s2)\<rparr>;
              s4 = s3\<lparr>instanceDisposed := True\<rparr>
          in (Inr True, s4))"

text \<open>
  The body of the closure \<^verbatim>\<open>onExpire\<close> that \<^verbatim>\<open>put\<close> hands to the Expirer, and its
  invocation by the Expirer, which has no use for the result.
\<close>

definition onExpire :: "string \<Rightarrow> entry \<Rightarrow> cache \<Rightarrow> (error + bool) \<times> cache" where
  "onExpire key target s = remove_key key True (emit (FC_EXPIRY key target) s)"

fun invoke :: "callback \<Rightarrow> cache \<Rightarrow> cache" where
  "invoke (OnExpire key target) s = snd (onExpire key target s)"

text \<open>
  Modelled from the spec: one tick of the Expirer's loop at time \<open>now\<close>. It "scans the
  index for all registrations whose expiry timestamp is <= current time, invokes each
  one's callback exactly once, and removes it from the index"; a disposed Expirer does
  not tick.
\<close>

definition tick :: "int \<Rightarrow> cache \<Rightarrow> cache" where
  "tick now s =
     (if running (cacheExpirer s) then
        let fired = filter (due now) (queue (cacheExpirer s));
            s1 = s\<lparr>cacheExpirer := (cacheExpirer s)\<lparr>queue := filter (\<lambda>r. \<not> due now r) (queue (cacheExpirer s))\<rparr>\<rparr>
        in fold (\<lambda>r s'. invoke (snd r) s') fired s1
      else s)"

section \<open>Histories of a cache instance\<close>

text \<open>
  The calls a client can make, and the tick of the Expirer's loop. A call that throws
  leaves the state it found.
\<close>

datatype op =
    Put string "jsval option" expiry_in int
  | Get string
  | Remove string bool
  | Dispose
  | Tick int

fun exec :: "op \<Rightarrow> cache \<Rightarrow> cache" where
  "exec (Put key val expiryIn now) s = snd (put key val expiryIn now s)"
| "exec (Get key) s = snd (get key s)"
| "exec (Remove key shouldEmit) s = snd (remove_key key shouldEmit s)"
| "exec Dispose s = snd (dispose s)"
| "exec (Tick now) s = tick now s"

inductive reachable :: "cache \<Rightarrow> bool" where
  new: "reachable (flashCache opts)"
| step: "reachable s \<Longrightarrow> reachable (exec op s)"

text \<open>The callback registered in the Expirer's index under the pair \<open>(t, key)\<close>, if any.\<close>

definition registered :: "cache \<Rightarrow> int \<Rightarrow> string \<Rightarrow> callback option" where
  "registered s t key = map_of (queue (cacheExpirer s)) (t, key)"

text \<open>
  The correspondence between the store and the Expirer's index that every operation
  maintains: the index holds each pair once; a registration \<open>(t, key)\<close> belongs to the
  entry that a read of \<open>key\<close> yields, whose \<open>expiryAt\<close> is \<open>t\<close> and which its callback
  captured; an own property of the store with a truthy \<open>expiryAt\<close> is registered; the
  key \<^verbatim>\<open>__proto__\<close> is never an own property; and the Expirer runs exactly as long as
  the instance is not disposed.
\<close>

definition consistent :: "cache \<Rightarrow> bool" where
  "consistent s \<longleftrightarrow>
     distinct (map fst (queue (cacheExpirer s))) \<and>
     ''__proto__'' \<notin> fst ` set (cacheStore s) \<and>
     (\<forall>t key cb. registered s t key = Some cb \<longrightarrow>
        t \<noteq> 0 \<and> (\<exists>e. store_get key s = Target e \<and> expiryAt e = Some t \<and> cb = OnExpire key e)) \<and>
     (\<forall>key e t. map_of (cacheStore s) key = Some e \<longrightarrow> expiryAt e = Some t \<longrightarrow> t \<noteq> 0 \<longrightarrow>
        registered s t key = Some (OnExpire key e)) \<and>
     (instanceDisposed s \<longleftrightarrow> \<not> running (cacheExpirer s))"

text \<open>
  The state in the middle of a tick: the registrations \<open>fired\<close> have been taken out of
  the index and their callbacks are still to be invoked. The correspondence holds up to
  them: an own property with a truthy \<open>expiryAt\<close> is registered or waits in \<open>fired\<close>, and
  what waits in \<open>fired\<close> belongs to the entry stored under its key.
\<close>

definition firing :: "((int \<times> string) \<times> callback) list \<Rightarrow> cache \<Rightarrow> bool" where
  "firing fired s \<longleftrightarrow>
     distinct (map fst fired) \<and>
     distinct (map fst (queue (cacheExpirer s))) \<and>
     ''__proto__'' \<notin> fst ` set (cacheStore s) \<and>
     (\<forall>t key cb. registered s t key = Some cb \<longrightarrow>
        t \<noteq> 0 \<and> (\<exists>e. store_get key s = Target e \<and> expiryAt e = Some t \<and> cb = OnExpire key e)) \<and>
     (\<forall>key e t. map_of (cacheStore s) key = Some e \<longrightarrow> expiryAt e = Some t \<longrightarrow> t \<noteq> 0 \<longrightarrow>
        registered s t key = Some (OnExpire key e) \<or> ((t, key), OnExpire key e) \<in> set fired) \<and>
     (\<forall>t key cb. ((t, key), cb) \<in> set fired \<longrightarrow>
        registered s t key = None \<and>
        (\<exists>e. store_get key s = Target e \<and> expiryAt e = Some t \<and> cb = OnExpire key e)) \<and>
     \<not> instanceDisposed s \<and> running (cacheExpirer s)"

text \<open>An operation that addresses \<open>key\<close>: a put or a remove of that key, or dispose.\<close>

fun touches :: "string \<Rightarrow> op \<Rightarrow> bool" where
  "touches key (Put key' val expiryIn now) = (key' = key)"
| "touches key (Remove key' shouldEmit) = (key' = key)"
| "touches key Dispose = True"
| "touches key (Get key') = False"
| "touches key (Tick now) = False"

section \<open>Reads, writes and the frame of each operation\<close>

lemma store_get_cong [simp]:
  "store_get k (s\<lparr>cacheExpirer := x\<rparr>) = store_get k s"
  "store_get k (s\<lparr>emitted := es\<rparr>) = store_get k s"
  "store_get k (s\<lparr>instanceDisposed := b\<rparr>) = store_get k s"
  by (simp_all add: store_get_def split: option.split)

lemma store_get_eqI:
  "map_of (cacheStore s) k = map_of (cacheStore s') k \<Longrightarrow> cacheStoreProto s = cacheStoreProto s' \<Longrightarrow>
   store_get k s = store_get k s'"
  by (simp add: store_get_def split: option.split)

lemma store_get_own: "map_of (cacheStore s) k = Some e \<Longrightarrow> store_get k s = Target e"
  by (simp add: store_get_def)

lemma store_get_Target_iff:
  "store_get k s = Target e \<longleftrightarrow>
     map_of (cacheStore s) k = Some e \<or>
     (map_of (cacheStore s) k = None \<and> k = ''__proto__'' \<and> cacheStoreProto s = Some e)"
  by (auto simp: store_get_def prototype_get_def object_prototype_get_def split: option.splits)

lemma store_get_falsy_not_own:
  "\<not> truthy (store_get k s) \<Longrightarrow> k \<notin> fst ` set (cacheStore s)"
  by (auto simp: store_get_def map_of_eq_None_iff[symmetric] split: option.splits)

lemma remove_key_state:
  "snd (remove_key k b s) =
     (if instanceDisposed s \<or> \<not> truthy (store_get k s) then s
      else s\<lparr>cacheStore := AList.delete k (cacheStore s),
             cacheExpirer := expirer_remove (expiryAt_of (store_get k s)) k (cacheExpirer s),
             emitted := (if b then emitted s @ [FC_REMOVE k (store_get k s)] else emitted s)\<rparr>)"
  by (simp add: remove_key_def checkIfInstanceIsDisposed_def Let_def store_delete_def emit_def)

lemma remove_key_result:
  "fst (remove_key k b s) =
     (if instanceDisposed s then Inl UseAfterDispose else Inr (truthy (store_get k s)))"
  by (simp add: remove_key_def checkIfInstanceIsDisposed_def Let_def)

lemma queue_expirer_remove:
  "queue (expirer_remove x k q) =
     (case x of Some (JNum n) \<Rightarrow> AList.delete (n, k) (queue q) | _ \<Rightarrow> queue q)"
  by (simp add: expirer_remove_def split: option.split jsval.split)

lemma running_expirer_remove [simp]: "running (expirer_remove x k q) = running q"
  by (simp add: expirer_remove_def split: option.split jsval.split)

lemma map_of_queue_expirer_remove:
  "map_of (queue (expirer_remove x k q)) (t, k') =
     (if x = Some (JNum t) \<and> k' = k then None else map_of (queue q) (t, k'))"
  by (auto simp: queue_expirer_remove AList.delete_conv split: option.split jsval.split)

lemma distinct_queue_expirer_remove:
  "distinct (map fst (queue q)) \<Longrightarrow> distinct (map fst (queue (expirer_remove x k q)))"
  by (auto simp: queue_expirer_remove AList.distinct_delete split: option.split jsval.split)

lemma consistent_remove_key:
  assumes "consistent s"
  shows "consistent (snd (remove_key k b s))"
proof (cases "instanceDisposed s \<or> \<not> truthy (store_get k s)")
  case True
  with assms show ?thesis by (simp add: remove_key_state)
next
  case False
  define s' where "s' = snd (remove_key k b s)"
  have own: "cacheStore s' = AList.delete k (cacheStore s)"
    and proto: "cacheStoreProto s' = cacheStoreProto s"
    and exp: "cacheExpirer s' = expirer_remove (expiryAt_of (store_get k s)) k (cacheExpirer s)"
    and disp: "instanceDisposed s' = instanceDisposed s"
    using False by (simp_all add: s'_def remove_key_state)
  from assms have d: "distinct (map fst (queue (cacheExpirer s)))"
    and np: "''__proto__'' \<notin> fst ` set (cacheStore s)"
    and r1: "\<And>t key cb. registered s t key = Some cb \<Longrightarrow>
        t \<noteq> 0 \<and> (\<exists>e. store_get key s = Target e \<and> expiryAt e = Some t \<and> cb = OnExpire key e)"
    and r2: "\<And>key e t. map_of (cacheStore s) key = Some e \<Longrightarrow> expiryAt e = Some t \<Longrightarrow> t \<noteq> 0 \<Longrightarrow>
        registered s t key = Some (OnExpire key e)"
    and fl: "instanceDisposed s \<longleftrightarrow> \<not> running (cacheExpirer s)"
    by (auto simp: consistent_def)
  have reg: "registered s' t key =
      (if expiryAt_of (store_get k s) = Some (JNum t) \<and> key = k then None else registered s t key)" for t key
    by (simp add: registered_def exp map_of_queue_expirer_remove)
  have get_other: "store_get key s' = store_get key s" if "key \<noteq> k" for key
    using that by (intro store_get_eqI) (simp_all add: own proto AList.delete_conv)
  have c1: "distinct (map fst (queue (cacheExpirer s')))"
    using d by (simp add: exp distinct_queue_expirer_remove)
  have c2: "''__proto__'' \<notin> fst ` set (cacheStore s')"
    using np AList.dom_delete_subset[of k "cacheStore s"] by (auto simp: own)
  have c3: "t \<noteq> 0 \<and> (\<exists>e. store_get key s' = Target e \<and> expiryAt e = Some t \<and> cb = OnExpire key e)"
    if h: "registered s' t key = Some cb" for t key cb
  proof -
    from h have old: "registered s t key = Some cb"
      and ne: "\<not> (expiryAt_of (store_get k s) = Some (JNum t) \<and> key = k)"
      by (auto simp: reg split: if_splits)
    from r1[OF old] obtain e where t0: "t \<noteq> 0" and e: "store_get key s = Target e"
      "expiryAt e = Some t" "cb = OnExpire key e" by blast
    have "key \<noteq> k"
    proof
      assume "key = k"
      with e have "expiryAt_of (store_get k s) = Some (JNum t)" by (simp add: expiryAt_val_def)
      with ne \<open>key = k\<close> show False by simp
    qed
    with e t0 show ?thesis by (simp add: get_other)
  qed
  have c4: "registered s' t key = Some (OnExpire key e)"
    if h: "map_of (cacheStore s') key = Some e" "expiryAt e = Some t" "t \<noteq> 0" for key e t
  proof -
    from h(1) have "key \<noteq> k" and "map_of (cacheStore s) key = Some e"
      by (auto simp: own AList.delete_conv split: if_splits)
    with r2 h show ?thesis by (simp add: reg)
  qed
  have c5: "instanceDisposed s' \<longleftrightarrow> \<not> running (cacheExpirer s')"
    using fl by (simp add: disp exp)
  from c1 c2 c3 c4 c5 show ?thesis
    unfolding consistent_def s'_def[symmetric] by blast
qed


lemma queue_expirer_add [simp]:
  "queue (expirer_add t k cb x) = AList.update (t, k) cb (queue x)"
  "running (expirer_add t k cb x) = running x"
  by (simp_all add: expirer_add_def)

lemma put_install:
  assumes "\<not> instanceDisposed s"
  shows "put key val expiryIn now s =
     (Inr (new_entry val expiryIn now s),
      install key (new_entry val expiryIn now s) (snd (remove_key key False s)))"
proof -
  have "(if truthy (store_get key s) then snd (remove_key key False s) else s) = snd (remove_key key False s)"
    by (simp add: remove_key_state)
  with assms show ?thesis
    by (simp add: put_def checkIfInstanceIsDisposed_def Let_def install_def new_entry_def
        cong: option.case_cong)
qed

lemma no_registration_after_remove:
  assumes "consistent s" "\<not> instanceDisposed s"
  shows "registered (snd (remove_key k b s)) t k = None"
proof (cases "registered s t k")
  case None
  then show ?thesis
    by (simp add: remove_key_state registered_def map_of_queue_expirer_remove)
next
  case (Some cb)
  with assms(1) obtain e where e: "store_get k s = Target e" "expiryAt e = Some t"
    unfolding consistent_def by blast
  then have "expiryAt_of (store_get k s) = Some (JNum t)" by (simp add: expiryAt_val_def)
  with e assms(2) show ?thesis
    by (simp add: remove_key_state registered_def map_of_queue_expirer_remove)
qed

lemma not_own_after_remove:
  assumes "\<not> instanceDisposed s"
  shows "k \<notin> fst ` set (cacheStore (snd (remove_key k b s)))"
proof (cases "truthy (store_get k s)")
  case True
  with assms show ?thesis by (simp add: remove_key_state AList.delete_notin_dom)
next
  case False
  with assms show ?thesis by (simp add: remove_key_state store_get_falsy_not_own)
qed

lemma registered_emit [simp]: "registered (emit ev s) = registered s"
  by (simp add: emit_def registered_def fun_eq_iff)

lemma store_get_emit [simp]: "store_get k (emit ev s) = store_get k s"
  by (simp add: emit_def)

lemma consistent_emit [simp]: "consistent (emit ev s) = consistent s"
  by (simp add: consistent_def emit_def registered_def)

lemma consistent_install:
  fixes target :: entry and key :: string
  assumes c: "consistent s1"
    and nr: "\<And>t. registered s1 t key = None"
    and no: "key \<notin> fst ` set (cacheStore s1)"
  shows "consistent (install key target s1)"
    and "store_get key (install key target s1) = Target target"
    and "registered (install key target s1) t key =
           (if expiryAt target = Some t \<and> t \<noteq> 0 then Some (OnExpire key target) else None)"
proof -
  define s2 where "s2 = store_set key target s1"
  define s3 where "s3 = (case expiryAt target of
                  Some t \<Rightarrow> if t \<noteq> 0
                     then s2\<lparr>cacheExpirer := expirer_add t key (OnExpire key target) (cacheExpirer s2)\<rparr>
                     else s2
                | None \<Rightarrow> s2)"
  have inst: "install key target s1 = emit (FC_ADD key target) s3"
    unfolding install_def s3_def s2_def Let_def by (simp cong: option.case_cong)
  from c have d: "distinct (map fst (queue (cacheExpirer s1)))"
    and np: "''__proto__'' \<notin> fst ` set (cacheStore s1)"
    and r1: "\<And>t k cb. registered s1 t k = Some cb \<Longrightarrow>
        t \<noteq> 0 \<and> (\<exists>e. store_get k s1 = Target e \<and> expiryAt e = Some t \<and> cb = OnExpire k e)"
    and r2: "\<And>k e t. map_of (cacheStore s1) k = Some e \<Longrightarrow> expiryAt e = Some t \<Longrightarrow> t \<noteq> 0 \<Longrightarrow>
        registered s1 t k = Some (OnExpire k e)"
    and fl: "instanceDisposed s1 \<longleftrightarrow> \<not> running (cacheExpirer s1)"
    by (auto simp: consistent_def)
  have s2: "s2 = (if key = ''__proto__'' then s1\<lparr>cacheStoreProto := Some target\<rparr>
                  else s1\<lparr>cacheStore := cacheStore s1 @ [(key, target)]\<rparr>)"
    using no by (simp add: s2_def store_set_def)
  have own2: "map_of (cacheStore s2) k =
      (if k = key \<and> key \<noteq> ''__proto__'' then Some target else map_of (cacheStore s1) k)" for k
    using no by (auto simp: s2 map_add_def map_of_eq_None_iff[symmetric] split: option.split)
  have get2_key: "store_get key s2 = Target target"
  proof (cases "key = ''__proto__''")
    case True
    with no show ?thesis
      by (simp add: s2 store_get_def prototype_get_def object_prototype_get_def map_of_eq_None_iff[symmetric])
  next
    case False
    then show ?thesis by (simp add: store_get_own own2)
  qed
  have get2_other: "store_get k s2 = Target e" if "store_get k s1 = Target e" "k \<noteq> key" for k e
  proof (cases "key = ''__proto__''")
    case True
    with that have "map_of (cacheStore s1) k = Some e"
      by (auto simp: store_get_Target_iff)
    with that(2) show ?thesis by (simp add: store_get_own own2)
  next
    case False
    have "store_get k s2 = store_get k s1"
      using that(2) False by (intro store_get_eqI) (simp_all add: own2, simp add: s2)
    with that show ?thesis by simp
  qed
  have exp2: "cacheExpirer s2 = cacheExpirer s1" and disp2: "instanceDisposed s2 = instanceDisposed s1"
    by (simp_all add: s2)
  have np2: "''__proto__'' \<notin> fst ` set (cacheStore s2)"
    using np by (auto simp: s2)
  have store3: "cacheStore s3 = cacheStore s2" "cacheStoreProto s3 = cacheStoreProto s2"
    "instanceDisposed s3 = instanceDisposed s2" "running (cacheExpirer s3) = running (cacheExpirer s2)"
    by (simp_all add: s3_def split: option.split)
  have get3: "store_get k s3 = store_get k s2" for k
    by (rule store_get_eqI) (simp_all add: store3)
  have reg3: "registered s3 t k =
      (if k = key \<and> expiryAt target = Some t \<and> t \<noteq> 0 then Some (OnExpire key target)
       else registered s1 t k)" for t k
    by (auto simp: s3_def registered_def exp2 AList.update_conv' split: option.split)
  show "store_get key (install key target s1) = Target target" by (simp add: inst get3 get2_key)
  show "registered (install key target s1) t key =
      (if expiryAt target = Some t \<and> t \<noteq> 0 then Some (OnExpire key target) else None)"
    by (simp add: inst registered_emit reg3 nr)
  have c1: "distinct (map fst (queue (cacheExpirer s3)))"
    using d by (auto simp: s3_def exp2 AList.distinct_update split: option.split)
  have c2: "''__proto__'' \<notin> fst ` set (cacheStore s3)"
    using np2 by (simp add: store3)
  have c3: "t \<noteq> 0 \<and> (\<exists>e. store_get k s3 = Target e \<and> expiryAt e = Some t \<and> cb = OnExpire k e)"
    if h: "registered s3 t k = Some cb" for t k cb
  proof (cases "k = key")
    case True
    with h have "expiryAt target = Some t \<and> t \<noteq> 0 \<and> cb = OnExpire key target"
      by (auto simp: reg3 nr split: if_splits)
    with True show ?thesis by (simp add: get3 get2_key)
  next
    case False
    with h have "registered s1 t k = Some cb" by (simp add: reg3)
    from r1[OF this] False show ?thesis by (auto simp: get3 intro: get2_other)
  qed
  have c4: "registered s3 t k = Some (OnExpire k e)"
    if h: "map_of (cacheStore s3) k = Some e" "expiryAt e = Some t" "t \<noteq> 0" for k e t
  proof (cases "k = key")
    case True
    with h no have "e = target" "key \<noteq> ''__proto__''"
      by (auto simp: store3 own2 map_of_eq_None_iff[symmetric] split: if_splits)
    with True h show ?thesis by (simp add: reg3)
  next
    case False
    with h have "map_of (cacheStore s1) k = Some e" by (simp add: store3 own2)
    from r2[OF this h(2,3)] False show ?thesis by (simp add: reg3)
  qed
  have c5: "instanceDisposed s3 \<longleftrightarrow> \<not> running (cacheExpirer s3)"
    using fl by (simp add: store3 exp2 disp2)
  from c1 c2 c3 c4 c5 have "consistent s3"
    unfolding consistent_def by blast
  then show "consistent (install key target s1)" by (simp add: inst)
qed

lemma consistent_put:
  assumes "consistent s"
  shows "consistent (snd (put key val expiryIn now s))"
proof (cases "instanceDisposed s")
  case True
  with assms show ?thesis by (simp add: put_def checkIfInstanceIsDisposed_def)
next
  case False
  let ?s1 = "snd (remove_key key False s)"
  have "consistent ?s1" by (rule consistent_remove_key[OF assms])
  moreover have "\<And>t. registered ?s1 t key = None"
    by (rule no_registration_after_remove[OF assms False])
  moreover have "key \<notin> fst ` set (cacheStore ?s1)"
    by (rule not_own_after_remove[OF False])
  ultimately show ?thesis
    using False by (simp add: put_install consistent_install(1))
qed


lemma consistent_get: "consistent s \<Longrightarrow> consistent (snd (get key s))"
  by (simp add: get_def checkIfInstanceIsDisposed_def Let_def)

lemma delete_filter: "AList.delete k al = filter (\<lambda>p. fst p \<noteq> k) al"
  by (induction al) auto

lemma cacheStore_remove_key:
  assumes "\<not> instanceDisposed s"
  shows "cacheStore (snd (remove_key k b s)) = filter (\<lambda>p. fst p \<noteq> k) (cacheStore s)"
proof (cases "truthy (store_get k s)")
  case True
  with assms show ?thesis by (simp add: remove_key_state delete_filter)
next
  case False
  then have "k \<notin> fst ` set (cacheStore s)" by (rule store_get_falsy_not_own)
  then have "filter (\<lambda>p. fst p \<noteq> k) (cacheStore s) = cacheStore s"
    by (auto simp: filter_id_conv)
  with False show ?thesis by (simp add: remove_key_state)
qed

lemma remove_key_frame [simp]:
  "cacheStoreProto (snd (remove_key k b s)) = cacheStoreProto s"
  "config (snd (remove_key k b s)) = config s"
  "instanceDisposed (snd (remove_key k b s)) = instanceDisposed s"
  "running (cacheExpirer (snd (remove_key k b s))) = running (cacheExpirer s)"
  by (simp_all add: remove_key_state)

lemma emitted_remove_key_silent [simp]:
  "emitted (snd (remove_key k False s)) = emitted s"
  by (simp add: remove_key_state)

lemma fold_remove_key:
  fixes ks :: "string list" and s :: cache
  assumes "\<not> instanceDisposed s"
  defines "s' \<equiv> fold (\<lambda>key s'. snd (remove_key key False s')) ks s"
  shows "cacheStore s' = filter (\<lambda>p. fst p \<notin> set ks) (cacheStore s)"
    and "cacheStoreProto s' = cacheStoreProto s"
    and "config s' = config s"
    and "instanceDisposed s' = instanceDisposed s"
    and "emitted s' = emitted s"
    and "running (cacheExpirer s') = running (cacheExpirer s)"
  using assms(1) unfolding s'_def
  by (induction ks arbitrary: s) (simp_all add: cacheStore_remove_key conj_commute)

lemma expirer_dispose_eq: "expirer_dispose x = \<lparr>queue = [], running = False\<rparr>"
  by (simp add: expirer_dispose_def)

lemma dispose_state:
  assumes "\<not> instanceDisposed s"
  shows "dispose s =
     (Inr True,
      s\<lparr>cacheStore := [], cacheExpirer := \<lparr>queue = [], running = False\<rparr>,
        instanceDisposed := True, emitted := emitted s @ [FC_CLEAR]\<rparr>)"
proof -
  let ?s1 = "fold (\<lambda>key s'. snd (remove_key key False s')) (store_keys s) s"
  have "cacheStore ?s1 = []"
    by (simp add: fold_remove_key(1)[OF assms] store_keys_def)
  then have "?s1\<lparr>emitted := emitted ?s1 @ [FC_CLEAR], cacheExpirer := \<lparr>queue = [], running = False\<rparr>,
                 instanceDisposed := True\<rparr> =
             s\<lparr>cacheStore := [], cacheExpirer := \<lparr>queue = [], running = False\<rparr>,
                instanceDisposed := True, emitted := emitted s @ [FC_CLEAR]\<rparr>"
    by (intro cache.equality) (simp_all add: fold_remove_key[OF assms])
  with assms show ?thesis
    by (simp add: dispose_def checkIfInstanceIsDisposed_def Let_def emit_def expirer_dispose_eq)
qed

lemma consistent_dispose: "consistent s \<Longrightarrow> consistent (snd (dispose s))"
proof (cases "instanceDisposed s")
  case True
  assume "consistent s"
  with True show ?thesis by (simp add: dispose_def checkIfInstanceIsDisposed_def)
next
  case False
  then show ?thesis
    by (simp add: dispose_state consistent_def registered_def)
qed


lemma instanceDisposed_emit [simp]: "instanceDisposed (emit ev s) = instanceDisposed s"
  and cacheStore_emit [simp]: "cacheStore (emit ev s) = cacheStore s"
  and cacheStoreProto_emit [simp]: "cacheStoreProto (emit ev s) = cacheStoreProto s"
  and cacheExpirer_emit [simp]: "cacheExpirer (emit ev s) = cacheExpirer s"
  and config_emit [simp]: "config (emit ev s) = config s"
  and emitted_emit [simp]: "emitted (emit ev s) = emitted s @ [ev]"
  by (simp_all add: emit_def)

lemma store_get_remove_other:
  "k' \<noteq> k \<Longrightarrow> store_get k' (snd (remove_key k b s)) = store_get k' s"
  by (rule store_get_eqI) (simp_all add: remove_key_state AList.delete_conv)

lemma registered_remove_key:
  "registered (snd (remove_key k b s)) t k' =
     (if \<not> instanceDisposed s \<and> truthy (store_get k s) \<and>
         expiryAt_of (store_get k s) = Some (JNum t) \<and> k' = k
      then None else registered s t k')"
  by (simp add: remove_key_state registered_def map_of_queue_expirer_remove)

lemma firing_end: "firing [] s \<Longrightarrow> consistent s"
  by (simp add: firing_def consistent_def)

lemma map_of_filter_fst:
  "map_of (filter (\<lambda>r. P (fst r)) al) k = (if P k then map_of al k else None)"
  by (induction al) auto

lemma firing_start:
  assumes c: "consistent s" and run: "running (cacheExpirer s)"
  defines "q \<equiv> queue (cacheExpirer s)"
  shows "firing (filter (due now) q) (s\<lparr>cacheExpirer := (cacheExpirer s)\<lparr>queue := filter (\<lambda>r. \<not> due now r) q\<rparr>\<rparr>)"
proof -
  let ?s1 = "s\<lparr>cacheExpirer := (cacheExpirer s)\<lparr>queue := filter (\<lambda>r. \<not> due now r) q\<rparr>\<rparr>"
  from c have d: "distinct (map fst q)"
    and np: "''__proto__'' \<notin> fst ` set (cacheStore s)"
    and r1: "\<And>t k cb. registered s t k = Some cb \<Longrightarrow>
        t \<noteq> 0 \<and> (\<exists>e. store_get k s = Target e \<and> expiryAt e = Some t \<and> cb = OnExpire k e)"
    and r2: "\<And>k e t. map_of (cacheStore s) k = Some e \<Longrightarrow> expiryAt e = Some t \<Longrightarrow> t \<noteq> 0 \<Longrightarrow>
        registered s t k = Some (OnExpire k e)"
    and fl: "instanceDisposed s \<longleftrightarrow> \<not> running (cacheExpirer s)"
    by (auto simp: consistent_def q_def)
  have reg1: "registered ?s1 t k = (if t \<le> now then None else registered s t k)" for t k
    using map_of_filter_fst[of "\<lambda>p. \<not> fst p \<le> now" q "(t, k)"]
    by (simp add: registered_def due_def q_def)
  have get1: "store_get k ?s1 = store_get k s" for k by simp
  have f1: "distinct (map fst (filter (due now) q))"
    using d by (simp add: distinct_map_filter)
  have f2: "distinct (map fst (queue (cacheExpirer ?s1)))"
    using d by (simp add: distinct_map_filter)
  have f3: "''__proto__'' \<notin> fst ` set (cacheStore ?s1)" using np by simp
  have f4: "t \<noteq> 0 \<and> (\<exists>e. store_get k ?s1 = Target e \<and> expiryAt e = Some t \<and> cb = OnExpire k e)"
    if "registered ?s1 t k = Some cb" for t k cb
    using that r1[of t k cb] by (simp add: reg1 split: if_splits)
  have f5: "registered ?s1 t k = Some (OnExpire k e) \<or> ((t, k), OnExpire k e) \<in> set (filter (due now) q)"
    if h: "map_of (cacheStore ?s1) k = Some e" "expiryAt e = Some t" "t \<noteq> 0" for k e t
  proof -
    from h have reg: "registered s t k = Some (OnExpire k e)" by (simp add: r2)
    then have "((t, k), OnExpire k e) \<in> set q"
      by (auto simp: registered_def q_def dest: map_of_SomeD)
    then have "t \<le> now \<Longrightarrow> ((t, k), OnExpire k e) \<in> set (filter (due now) q)"
      by (simp add: due_def)
    with reg show ?thesis by (cases "t \<le> now") (simp_all add: reg1)
  qed
  have f6: "registered ?s1 t k = None \<and>
        (\<exists>e. store_get k ?s1 = Target e \<and> expiryAt e = Some t \<and> cb = OnExpire k e)"
    if h: "((t, k), cb) \<in> set (filter (due now) q)" for t k cb
  proof -
    from h have "((t, k), cb) \<in> set q" and "t \<le> now" by (auto simp: due_def)
    with d have "registered s t k = Some cb" by (simp add: registered_def q_def)
    from r1[OF this] \<open>t \<le> now\<close> show ?thesis by (simp add: reg1)
  qed
  have f7: "\<not> instanceDisposed ?s1 \<and> running (cacheExpirer ?s1)"
    using fl run by simp
  from f1 f2 f3 f4 f5 f6 f7 show ?thesis
    unfolding firing_def by blast
qed

lemma firing_step:
  assumes f: "firing (((t, k), cb) # fired) s"
  shows "firing fired (invoke cb s)"
proof -
  from f have df: "distinct (map fst (((t, k), cb) # fired))"
    and d: "distinct (map fst (queue (cacheExpirer s)))"
    and np: "''__proto__'' \<notin> fst ` set (cacheStore s)"
    and r1: "\<And>t k cb. registered s t k = Some cb \<Longrightarrow>
        t \<noteq> 0 \<and> (\<exists>e. store_get k s = Target e \<and> expiryAt e = Some t \<and> cb = OnExpire k e)"
    and r2: "\<And>k' e t'. map_of (cacheStore s) k' = Some e \<Longrightarrow> expiryAt e = Some t' \<Longrightarrow> t' \<noteq> 0 \<Longrightarrow>
        registered s t' k' = Some (OnExpire k' e) \<or> ((t', k'), OnExpire k' e) \<in> set (((t, k), cb) # fired)"
    and r3: "\<And>t' k' cb'. ((t', k'), cb') \<in> set (((t, k), cb) # fired) \<Longrightarrow>
        registered s t' k' = None \<and>
        (\<exists>e. store_get k' s = Target e \<and> expiryAt e = Some t' \<and> cb' = OnExpire k' e)"
    and nd: "\<not> instanceDisposed s" and run: "running (cacheExpirer s)"
    unfolding firing_def by blast+
  from r3[of t k cb] obtain e where none: "registered s t k = None"
    and e: "store_get k s = Target e" "expiryAt e = Some t" "cb = OnExpire k e"
    by auto
  define s' where "s' = invoke cb s"
  have s': "s' = snd (remove_key k True (emit (FC_EXPIRY k e) s))"
    by (simp add: s'_def e onExpire_def)
  have reg: "registered s' t' k' = registered s t' k'" for t' k'
    using none by (auto simp: s' registered_remove_key e expiryAt_val_def)
  have get_other: "store_get k' s' = store_get k' s" if "k' \<noteq> k" for k'
    using that by (simp add: s' store_get_remove_other)
  have own: "cacheStore s' = AList.delete k (cacheStore s)"
    using nd e by (simp add: s' remove_key_state)
  have g1: "distinct (map fst fired)" using df by simp
  have g2: "distinct (map fst (queue (cacheExpirer s')))"
    using d nd e by (simp add: s' remove_key_state distinct_queue_expirer_remove)
  have g3: "''__proto__'' \<notin> fst ` set (cacheStore s')"
    using np AList.dom_delete_subset[of k "cacheStore s"] by (auto simp: own)
  have g4: "t' \<noteq> 0 \<and> (\<exists>e'. store_get k' s' = Target e' \<and> expiryAt e' = Some t' \<and> cb' = OnExpire k' e')"
    if h: "registered s' t' k' = Some cb'" for t' k' cb'
  proof -
    from h have old: "registered s t' k' = Some cb'" by (simp add: reg)
    from r1[OF old] obtain e' where t0: "t' \<noteq> 0" and e': "store_get k' s = Target e'"
      "expiryAt e' = Some t'" "cb' = OnExpire k' e'" by blast
    have "k' \<noteq> k"
    proof
      assume "k' = k"
      with e e' have "t' = t" by simp
      with old none \<open>k' = k\<close> show False by simp
    qed
    with t0 e' show ?thesis by (simp add: get_other)
  qed
  have g5: "registered s' t' k' = Some (OnExpire k' e') \<or> ((t', k'), OnExpire k' e') \<in> set fired"
    if h: "map_of (cacheStore s') k' = Some e'" "expiryAt e' = Some t'" "t' \<noteq> 0" for k' e' t'
  proof -
    from h(1) have "k' \<noteq> k" and "map_of (cacheStore s) k' = Some e'"
      by (auto simp: own AList.delete_conv split: if_splits)
    from r2[OF this(2) h(2,3)] \<open>k' \<noteq> k\<close> show ?thesis by (auto simp: reg)
  qed
  have g6: "registered s' t' k' = None \<and>
        (\<exists>e'. store_get k' s' = Target e' \<and> expiryAt e' = Some t' \<and> cb' = OnExpire k' e')"
    if h: "((t', k'), cb') \<in> set fired" for t' k' cb'
  proof -
    from h r3[of t' k' cb'] obtain e' where n': "registered s t' k' = None"
      and e': "store_get k' s = Target e'" "expiryAt e' = Some t'" "cb' = OnExpire k' e'"
      by auto
    have "k' \<noteq> k"
    proof
      assume "k' = k"
      with e e' have "t' = t" by simp
      with h \<open>k' = k\<close> have "(t, k) \<in> fst ` set fired" by force
      with df show False by simp
    qed
    with n' e' show ?thesis by (simp add: reg get_other)
  qed
  have g7: "\<not> instanceDisposed s' \<and> running (cacheExpirer s')"
    using nd run by (simp add: s')
  from g1 g2 g3 g4 g5 g6 g7 show ?thesis
    unfolding firing_def s'_def[symmetric] by blast
qed

lemma firing_fold:
  "firing fired s \<Longrightarrow> consistent (fold (\<lambda>r s'. invoke (snd r) s') fired s)"
proof (induction fired arbitrary: s)
  case Nil
  then show ?case by (simp add: firing_end)
next
  case (Cons r fired)
  obtain t k cb where r: "r = ((t, k), cb)" by (cases r) auto
  with Cons.prems have "firing fired (invoke cb s)" by (simp add: firing_step)
  then have "consistent (fold (\<lambda>r s'. invoke (snd r) s') fired (invoke cb s))"
    by (rule Cons.IH)
  then show ?case by (simp add: r)
qed

lemma consistent_tick: "consistent s \<Longrightarrow> consistent (tick now s)"
  by (simp add: tick_def Let_def firing_fold firing_start)

lemma consistent_new: "consistent (flashCache opts)"
  by (simp add: consistent_def flashCache_def registered_def)

lemma consistent_exec: "consistent s \<Longrightarrow> consistent (exec op s)"
  by (cases op) (simp_all add: consistent_put consistent_get consistent_remove_key
      consistent_dispose consistent_tick)

lemma reachable_consistent: "reachable s \<Longrightarrow> consistent s"
  by (induction rule: reachable.induct) (simp_all add: consistent_new consistent_exec)


lemma store_get_store_set: "store_get key (store_set key target s) = Target target"
proof (cases "key \<in> fst ` set (cacheStore s)")
  case True
  then show ?thesis by (simp add: store_set_def store_get_own AList.update_conv')
next
  case False
  then have none: "map_of (cacheStore s) key = None" by (simp add: map_of_eq_None_iff)
  show ?thesis
  proof (cases "key = ''__proto__''")
    case True
    with False none show ?thesis
      by (simp add: store_set_def store_get_def prototype_get_def object_prototype_get_def)
  next
    case False
    with \<open>key \<notin> fst ` set (cacheStore s)\<close> none show ?thesis
      by (simp add: store_set_def store_get_own map_add_def)
  qed
qed

lemma store_get_store_set_other:
  assumes "k \<noteq> key" "store_get k s = Target e"
  shows "store_get k (store_set key target s) = Target e"
proof -
  have own: "map_of (cacheStore (store_set key target s)) k = map_of (cacheStore s) k"
    using assms(1) by (auto simp: store_set_def AList.update_conv' map_add_def split: option.split)
  show ?thesis
  proof (cases "map_of (cacheStore s) k")
    case (Some e')
    with assms(2) own show ?thesis by (simp add: store_get_def)
  next
    case None
    with assms(2) have "k = ''__proto__''" "cacheStoreProto s = Some e"
      by (auto simp: store_get_Target_iff)
    with assms(1) have "cacheStoreProto (store_set key target s) = Some e"
      by (simp add: store_set_def)
    with None own \<open>k = ''__proto__''\<close> show ?thesis
      by (simp add: store_get_Target_iff)
  qed
qed

lemma store_get_install: "store_get k (install key target s) = store_get k (store_set key target s)"
  by (simp add: install_def Let_def split: option.split)

lemma emitted_store_set [simp]: "emitted (store_set key target s) = emitted s"
  and instanceDisposed_store_set [simp]: "instanceDisposed (store_set key target s) = instanceDisposed s"
  and cacheExpirer_store_set [simp]: "cacheExpirer (store_set key target s) = cacheExpirer s"
  and config_store_set [simp]: "config (store_set key target s) = config s"
  by (simp_all add: store_set_def)

lemma emitted_install: "emitted (install key target s) = emitted s @ [FC_ADD key target]"
  by (simp add: install_def Let_def split: option.split)

lemma store_get_put_other:
  assumes "k \<noteq> key" "store_get k s = Target e"
  shows "store_get k (snd (put key val expiryIn now s)) = Target e"
proof (cases "instanceDisposed s")
  case True
  with assms show ?thesis by (simp add: put_def checkIfInstanceIsDisposed_def)
next
  case False
  from assms have "store_get k (snd (remove_key key False s)) = Target e"
    by (simp add: store_get_remove_other)
  with assms(1) False show ?thesis
    by (simp add: put_install store_get_install store_get_store_set_other)
qed

lemma store_get_fold_invoke_other:
  assumes "\<forall>r \<in> set fired. \<exists>k e. snd r = OnExpire k e \<and> k \<noteq> key"
  shows "store_get key (fold (\<lambda>r s'. invoke (snd r) s') fired s) = store_get key s"
  using assms
proof (induction fired arbitrary: s)
  case Nil
  then show ?case by simp
next
  case (Cons r fired)
  from Cons.prems obtain k e where r: "snd r = OnExpire k e" "k \<noteq> key" by auto
  from Cons.prems have "\<forall>r \<in> set fired. \<exists>k e. snd r = OnExpire k e \<and> k \<noteq> key" by simp
  then have "store_get key (fold (\<lambda>r s'. invoke (snd r) s') fired (invoke (snd r) s)) =
        store_get key (invoke (snd r) s)"
    by (rule Cons.IH)
  also have "\<dots> = store_get key s"
    using r by (simp add: onExpire_def store_get_remove_other)
  finally show ?case by simp
qed

lemma tick_keeps_entry:
  assumes c: "consistent s" and g: "store_get key s = Target e"
    and later: "\<forall>t. expiryAt e = Some t \<longrightarrow> now < t"
  shows "store_get key (tick now s) = Target e"
proof (cases "running (cacheExpirer s)")
  case False
  with g show ?thesis by (simp add: tick_def)
next
  case True
  let ?q = "queue (cacheExpirer s)"
  have "\<exists>k e'. snd r = OnExpire k e' \<and> k \<noteq> key" if "r \<in> set (filter (due now) ?q)" for r
  proof -
    obtain t k cb where r: "r = ((t, k), cb)" by (cases r) auto
    from that r have "((t, k), cb) \<in> set ?q" "t \<le> now" by (auto simp: due_def)
    moreover from c have "distinct (map fst ?q)" by (simp add: consistent_def)
    ultimately have "registered s t k = Some cb" by (simp add: registered_def)
    with c obtain e' where e': "store_get k s = Target e'" "expiryAt e' = Some t" "cb = OnExpire k e'"
      unfolding consistent_def by blast
    have "k \<noteq> key"
    proof
      assume "k = key"
      with e' g have "expiryAt e = Some t" by simp
      with later \<open>t \<le> now\<close> show False by auto
    qed
    with e' r show ?thesis by simp
  qed
  then have "\<forall>r \<in> set (filter (due now) ?q). \<exists>k e'. snd r = OnExpire k e' \<and> k \<noteq> key"
    by blast
  then have "store_get key (fold (\<lambda>r s'. invoke (snd r) s') (filter (due now) ?q)
      (s\<lparr>cacheExpirer := (cacheExpirer s)\<lparr>queue := filter (\<lambda>r. \<not> due now r) ?q\<rparr>\<rparr>)) =
      store_get key (s\<lparr>cacheExpirer := (cacheExpirer s)\<lparr>queue := filter (\<lambda>r. \<not> due now r) ?q\<rparr>\<rparr>)"
    by (rule store_get_fold_invoke_other)
  with True g show ?thesis by (simp add: tick_def Let_def)
qed

lemma ticks_keep_entry:
  assumes "consistent s" "store_get key s = Target e"
    and "\<forall>T \<in> set Ts. \<forall>t. expiryAt e = Some t \<longrightarrow> T < t"
  shows "store_get key (fold tick Ts s) = Target e"
  using assms
proof (induction Ts arbitrary: s)
  case Nil
  then show ?case by simp
next
  case (Cons T Ts)
  from Cons.prems have "store_get key (tick T s) = Target e"
    by (intro tick_keeps_entry) simp_all
  moreover from Cons.prems have "consistent (tick T s)" by (intro consistent_tick)
  moreover from Cons.prems have "\<forall>T \<in> set Ts. \<forall>t. expiryAt e = Some t \<longrightarrow> T < t" by simp
  ultimately have "store_get key (fold tick Ts (tick T s)) = Target e"
    by (intro Cons.IH)
  then show ?case by simp
qed

lemma exec_keeps_entry:
  assumes "consistent s" "store_get key s = Target e" "expiryAt e = None" "\<not> touches key op"
  shows "store_get key (exec op s) = Target e"
proof (cases op)
  case (Put k v x n)
  with assms show ?thesis by (simp add: store_get_put_other)
next
  case (Get k)
  with assms show ?thesis by (simp add: get_def checkIfInstanceIsDisposed_def Let_def)
next
  case (Remove k b)
  with assms show ?thesis by (simp add: store_get_remove_other)
next
  case Dispose
  with assms show ?thesis by simp
next
  case (Tick n)
  from assms(1,2) have "store_get key (tick n s) = Target e"
    by (rule tick_keeps_entry) (simp add: assms(3))
  with Tick show ?thesis by simp
qed

lemma execs_keep_entry:
  assumes "consistent s" "store_get key s = Target e" "expiryAt e = None"
    and "\<forall>op \<in> set ops. \<not> touches key op"
  shows "store_get key (fold exec ops s) = Target e"
  using assms
proof (induction ops arbitrary: s)
  case Nil
  then show ?case by simp
next
  case (Cons op ops)
  from Cons.prems have "store_get key (exec op s) = Target e"
    by (intro exec_keeps_entry) simp_all
  moreover from Cons.prems have "consistent (exec op s)" by (intro consistent_exec)
  moreover from Cons.prems have "\<forall>op \<in> set ops. \<not> touches key op" by simp
  ultimately have "store_get key (fold exec ops (exec op s)) = Target e"
    using Cons.prems(3) by (intro Cons.IH)
  then show ?case by simp
qed

section \<open>Supporting facts for the claims\<close>

lemma distinct_set_singleton:
  assumes "distinct xs" "set xs = {x}"
  shows "xs = [x]"
proof (cases xs)
  case Nil
  with assms show ?thesis by simp
next
  case (Cons y ys)
  with assms have "y = x" by auto
  moreover have "ys = []"
  proof (cases ys)
    case Nil
    then show ?thesis .
  next
    case (Cons z zs)
    with assms \<open>xs = y # ys\<close> have "z = x" "z \<noteq> y" by auto
    with \<open>y = x\<close> show ?thesis by simp
  qed
  ultimately show ?thesis using Cons by simp
qed

lemma disposed_fails:
  assumes "instanceDisposed s"
  shows "put key val expiryIn now s = (Inl UseAfterDispose, s)"
    and "get key s = (Inl UseAfterDispose, s)"
    and "remove_key key shouldEmit s = (Inl UseAfterDispose, s)"
    and "dispose s = (Inl UseAfterDispose, s)"
  using assms by (simp_all add: put_def get_def remove_key_def dispose_def checkIfInstanceIsDisposed_def)

lemma instanceDisposed_fold_invoke [simp]:
  "instanceDisposed (fold (\<lambda>r s'. invoke (snd r) s') fired s) = instanceDisposed s"
proof (induction fired arbitrary: s)
  case Nil
  show ?case by simp
next
  case (Cons r fired)
  obtain k e where "snd r = OnExpire k e" by (cases "snd r") auto
  with Cons show ?case by (simp add: onExpire_def)
qed

lemma instanceDisposed_exec:
  "instanceDisposed s \<Longrightarrow> instanceDisposed (exec op s)"
  by (cases op) (simp_all add: disposed_fails tick_def Let_def)

lemma instanceDisposed_execs:
  "instanceDisposed s \<Longrightarrow> instanceDisposed (fold exec ops s)"
  by (induction ops arbitrary: s) (simp_all add: instanceDisposed_exec)

lemmas eval_defs =
  flashCache_def no_options_def defaultConfig_def put_def get_def remove_key_def dispose_def tick_def
  checkIfInstanceIsDisposed_def store_get_def store_set_def store_delete_def store_keys_def
  prototype_get_def object_prototype_get_def object_prototype_methods_def expiryAt_val_def
  expiryAt_for_def expirer_add_def expirer_remove_def expirer_dispose_def emit_def due_def
  onExpire_def new_entry_def install_def registered_def Let_def

lemma disposed_stays:
  assumes "instanceDisposed s" "\<not> running (cacheExpirer s)"
  shows "exec op s = s"
  using assms by (cases op) (simp_all add: disposed_fails tick_def)

lemma disposed_stays_fold:
  assumes "instanceDisposed s" "\<not> running (cacheExpirer s)"
  shows "fold exec ops s = s"
  using assms by (induction ops) (simp_all add: disposed_stays)

lemma cacheExpirer_install_no_expiry:
  "expiryAt target = None \<Longrightarrow> cacheExpirer (install key target s) = cacheExpirer s"
  by (simp add: install_def Let_def)

lemma expiryAt_for_falsy: "\<not> truthy_expiry_in ttl \<Longrightarrow> expiryAt_for ttl now = None"
  by (simp add: expiryAt_for_def)

lemma expiryAt_for_truthy: "n \<noteq> 0 \<Longrightarrow> expiryAt_for (TNum n) now = Some (now + n)"
  by (simp add: expiryAt_for_def)

lemma expiryAt_new_entry:
  "expiryAt (new_entry val expiryIn now s) =
     expiryAt_for (if expiryIn = TUndefined then defaultCacheExpiryIn (config s) else expiryIn) now"
  by (simp add: new_entry_def)

text \<open>What put leaves for its key, in a consistent state.\<close>

lemma put_key_facts:
  fixes key :: string and val :: "jsval option" and expiryIn :: expiry_in and now :: int
  assumes c: "consistent s" and nd: "\<not> instanceDisposed s"
  defines "mid \<equiv> snd (remove_key key False s)"
  defines "new \<equiv> new_entry val expiryIn now s"
  defines "s' \<equiv> snd (put key val expiryIn now s)"
  shows "put key val expiryIn now s = (Inr new, install key new mid) \<and>
         key \<notin> fst ` set (cacheStore mid) \<and>
         (\<forall>t. registered mid t key = None) \<and>
         store_get key s' = Target new \<and>
         (\<forall>t. registered s' t key =
            (if expiryAt new = Some t \<and> t \<noteq> 0 then Some (OnExpire key new) else None)) \<and>
         consistent s'"
proof -
  have p: "put key val expiryIn now s = (Inr new, install key new mid)"
    using nd by (simp add: put_install mid_def new_def)
  have m1: "consistent mid" unfolding mid_def by (rule consistent_remove_key[OF c])
  have m2: "\<And>t. registered mid t key = None"
    unfolding mid_def by (rule no_registration_after_remove[OF c nd])
  have m3: "key \<notin> fst ` set (cacheStore mid)"
    unfolding mid_def by (rule not_own_after_remove[OF nd])
  have s': "s' = install key new mid" by (simp add: s'_def p)
  have "store_get key s' = Target new"
    unfolding s' by (rule consistent_install(2)[OF m1 m2 m3])
  moreover have "\<forall>t. registered s' t key =
      (if expiryAt new = Some t \<and> t \<noteq> 0 then Some (OnExpire key new) else None)"
    unfolding s' using consistent_install(3)[OF m1 m2 m3] by blast
  moreover have "consistent s'"
    unfolding s' by (rule consistent_install(1)[OF m1 m2 m3])
  ultimately show ?thesis using p m2 m3 by blast
qed

text \<open>
  A key is plain in a state when the prototype chain of the store has no property of
  that name, that is, when \<open>prototype_get\<close> yields \<open>Undefined\<close> for it. For plain keys
  the store behaves as a map: a get of an absent key misses, a second remove returns
  false, and a get after the eviction misses. A get changes nothing but the emitted
  events, and a callback that fires raises its two events, for every key.
\<close>

lemma get_frame:
  "cacheStore (snd (get key s)) = cacheStore s \<and>
   cacheStoreProto (snd (get key s)) = cacheStoreProto s \<and>
   cacheExpirer (snd (get key s)) = cacheExpirer s \<and>
   config (snd (get key s)) = config s \<and>
   instanceDisposed (snd (get key s)) = instanceDisposed s"
  by (simp add: get_def checkIfInstanceIsDisposed_def Let_def)

lemma get_of_plain_key:
  assumes "\<not> instanceDisposed s" and "prototype_get (cacheStoreProto s) key = Undefined"
  shows "get key s =
     (case map_of (cacheStore s) key of
        Some e \<Rightarrow> (Inr (Target e), emit (FC_GET key (Target e)) s)
      | None \<Rightarrow> (Inr (Plain JNull), s))"
  using assms
  by (simp add: get_def checkIfInstanceIsDisposed_def store_get_def Let_def split: option.split)

lemma remove_of_plain_key_twice:
  assumes "\<not> instanceDisposed s" and "prototype_get (cacheStoreProto s) key = Undefined"
  shows "remove_key key b' (snd (remove_key key b s)) = (Inr False, snd (remove_key key b s))"
proof -
  have "key \<notin> fst ` set (cacheStore (snd (remove_key key b s)))"
    by (rule not_own_after_remove[OF assms(1)])
  then have "map_of (cacheStore (snd (remove_key key b s))) key = None"
    by (simp add: map_of_eq_None_iff)
  with assms(2) have "store_get key (snd (remove_key key b s)) = Undefined"
    by (simp add: store_get_def)
  with assms(1) show ?thesis
    by (simp add: remove_key_def[of key b'] checkIfInstanceIsDisposed_def)
qed

lemma eviction_events:
  assumes c: "consistent s" and nd: "\<not> instanceDisposed s"
    and reg: "registered s t key = Some cb"
  shows "\<exists>e. cb = OnExpire key e \<and> store_get key s = Target e \<and> expiryAt e = Some t \<and>
           emitted (invoke cb s) = emitted s @ [FC_EXPIRY key e, FC_REMOVE key (Target e)] \<and>
           key \<notin> fst ` set (cacheStore (invoke cb s)) \<and>
           (\<forall>t'. registered (invoke cb s) t' key = None)"
proof -
  from c reg obtain e where e: "store_get key s = Target e" "expiryAt e = Some t" "cb = OnExpire key e"
    unfolding consistent_def by blast
  define s0 where "s0 = emit (FC_EXPIRY key e) s"
  define s' where "s' = invoke cb s"
  have s': "s' = snd (remove_key key True s0)"
    by (simp add: s'_def s0_def e onExpire_def)
  have c0: "consistent s0" and nd0: "\<not> instanceDisposed s0"
    using c nd by (simp_all add: s0_def)
  have em: "emitted s' = emitted s @ [FC_EXPIRY key e, FC_REMOVE key (Target e)]"
    using nd e by (simp add: s' s0_def remove_key_state)
  have own: "key \<notin> fst ` set (cacheStore s')"
    unfolding s' by (rule not_own_after_remove[OF nd0])
  have "registered s' t' key = None" for t'
    unfolding s' by (rule no_registration_after_remove[OF c0 nd0])
  with e em own show ?thesis unfolding s'_def by blast
qed

lemma eviction_of_plain_key:
  assumes c: "consistent s" and nd: "\<not> instanceDisposed s"
    and reg: "registered s t key = Some cb"
    and plain: "prototype_get (cacheStoreProto s) key = Undefined"
  shows "\<exists>e. cb = OnExpire key e \<and> store_get key s = Target e \<and>
           emitted (invoke cb s) = emitted s @ [FC_EXPIRY key e, FC_REMOVE key (Target e)] \<and>
           get key (invoke cb s) = (Inr (Plain JNull), invoke cb s)"
proof -
  from c reg obtain e where e: "store_get key s = Target e" "cb = OnExpire key e"
    unfolding consistent_def by blast
  define s' where "s' = invoke cb s"
  have s': "s' = snd (remove_key key True (emit (FC_EXPIRY key e) s))"
    by (simp add: s'_def e onExpire_def)
  have em: "emitted s' = emitted s @ [FC_EXPIRY key e, FC_REMOVE key (Target e)]"
    using nd e by (simp add: s' remove_key_state)
  have "key \<notin> fst ` set (cacheStore s')"
    unfolding s' by (rule not_own_after_remove) (simp add: nd)
  then have "map_of (cacheStore s') key = None" by (simp add: map_of_eq_None_iff)
  moreover have "cacheStoreProto s' = cacheStoreProto s" "\<not> instanceDisposed s'"
    using nd by (simp_all add: s')
  ultimately have "get key s' = (Inr (Plain JNull), s')"
    using plain by (simp add: get_of_plain_key)
  with e em show ?thesis unfolding s'_def by blast
qed

section \<open>The store and the Expirer's index\<close>

text \<open>
  In every reachable state, the registrations of a key other than \<^verbatim>\<open>__proto__\<close> are
  those of its own property in the store: none when the key has no own property or its
  entry has a null or zero \<open>expiryAt\<close>, and otherwise the one registration at the entry's
  \<open>expiryAt\<close>, whose callback captured the entry.
\<close>

lemma registrations_of_key:
  assumes r: "reachable s" and k: "key \<noteq> ''__proto__''"
  shows "filter (\<lambda>r. snd (fst r) = key) (queue (cacheExpirer s)) =
     (case map_of (cacheStore s) key of
        None \<Rightarrow> []
      | Some e \<Rightarrow>
          (case expiryAt e of
             None \<Rightarrow> []
           | Some t \<Rightarrow> if t \<noteq> 0 then [((t, key), OnExpire key e)] else []))"
proof -
  let ?q = "queue (cacheExpirer s)"
  let ?L = "filter (\<lambda>r. snd (fst r) = key) ?q"
  from r have c: "consistent s" by (rule reachable_consistent)
  then have d: "distinct (map fst ?q)" by (simp add: consistent_def)
  then have dL: "distinct ?L" by (simp add: distinct_map_filter distinct_map[THEN iffD1, THEN conjunct1])
  have elem: "t \<noteq> 0 \<and> map_of (cacheStore s) key = Some e' \<and> expiryAt e' = Some t \<and> cb = OnExpire key e'"
    if "((t, key), cb) \<in> set ?q" "store_get key s = Target e'" for t cb e'
  proof -
    from d that(1) have "registered s t key = Some cb" by (simp add: registered_def)
    with c obtain e where "t \<noteq> 0" "store_get key s = Target e" "expiryAt e = Some t" "cb = OnExpire key e"
      unfolding consistent_def by blast
    with that(2) k show ?thesis by (auto simp: store_get_Target_iff)
  qed
  have live: "\<exists>e. store_get key s = Target e" if "((t, key), cb) \<in> set ?q" for t cb
  proof -
    from d that have "registered s t key = Some cb" by (simp add: registered_def)
    with c show ?thesis unfolding consistent_def by blast
  qed
  show ?thesis
  proof (cases "\<exists>e t. map_of (cacheStore s) key = Some e \<and> expiryAt e = Some t \<and> t \<noteq> 0")
    case True
    then obtain e t where e: "map_of (cacheStore s) key = Some e" "expiryAt e = Some t" "t \<noteq> 0"
      by blast
    then have g: "store_get key s = Target e" by (simp add: store_get_own)
    from c e have "registered s t key = Some (OnExpire key e)" unfolding consistent_def by blast
    then have mem: "((t, key), OnExpire key e) \<in> set ?L"
      by (auto simp: registered_def dest: map_of_SomeD)
    have "x = ((t, key), OnExpire key e)" if "x \<in> set ?L" for x
    proof -
      obtain t' k' cb where x: "x = ((t', k'), cb)" by (cases x) auto
      from that have "x \<in> set ?q" "snd (fst x) = key" by simp_all
      with x have "k' = key" "((t', key), cb) \<in> set ?q" by simp_all
      from elem[OF this(2) g] e x \<open>k' = key\<close> show ?thesis by simp
    qed
    with mem have "set ?L = {((t, key), OnExpire key e)}" by blast
    with dL have "?L = [((t, key), OnExpire key e)]" by (rule distinct_set_singleton)
    with e show ?thesis by simp
  next
    case False
    have none: "x \<notin> set ?L" for x
    proof
      assume "x \<in> set ?L"
      then have "x \<in> set ?q" "snd (fst x) = key" by simp_all
      then have "((fst (fst x), key), snd x) \<in> set ?q" by (metis prod.collapse)
      then obtain t cb where x: "((t, key), cb) \<in> set ?q" by blast
      from live[OF x] obtain e where "store_get key s = Target e" by blast
      from elem[OF x this] False show False by blast
    qed
    have "?L = []"
    proof (cases ?L)
      case Nil
      then show ?thesis .
    next
      case (Cons x xs)
      then have "x \<in> set ?L" by (simp only: list.set_intros)
      with none show ?thesis by blast
    qed
    with False show ?thesis by (auto split: option.split)
  qed
qed

text \<open>
  Claim C1. The claim: in every reachable state an entry stored with \<open>expiryAt\<close> set has
  exactly one pending registration, and every operation keeps it so. Lemma
  \<open>registrations_of_key\<close> shows this for the own properties of the store, with the test
  \<^verbatim>\<open>if (expiryAt)\<close> of \<^verbatim>\<open>put\<close> read as it is written (an \<open>expiryAt\<close> of 0 is not
  registered). It fails for the key \<^verbatim>\<open>__proto__\<close>: \<^verbatim>\<open>put\<close> stores that entry as the prototype of the
  store, where \<^verbatim>\<open>delete\<close> does not reach it. The theorem evaluates the code there: after
  \<^verbatim>\<open>put("__proto__", 1, 100)\<close> at time 5 and \<^verbatim>\<open>remove("__proto__")\<close>, which returns true,
  the state is reachable, a get of the key still returns the entry with
  \<open>expiryAt = 105\<close>, and the index is empty; and after a tick at time 105 instead of the
  remove, a get of the key returns the entry as well.
\<close>

theorem proto_entry_outlives_registration:
  "(let s1 = snd (put ''__proto__'' (Some (JNum 1)) (TNum 100) 5 (flashCache no_options));
        s2 = snd (remove_key ''__proto__'' False s1)
    in reachable s2 \<and>
       fst (remove_key ''__proto__'' False s1) = Inr True \<and>
       fst (get ''__proto__'' s2) = Inr (Target \<lparr>value = JNum 1, time = 5, expiryAt = Some 105\<rparr>) \<and>
       queue (cacheExpirer s2) = [] \<and>
       fst (get ''__proto__'' (tick 105 s1)) = Inr (Target \<lparr>value = JNum 1, time = 5, expiryAt = Some 105\<rparr>))"
proof -
  define s1 where "s1 = snd (put ''__proto__'' (Some (JNum 1)) (TNum 100) 5 (flashCache no_options))"
  define s2 where "s2 = snd (remove_key ''__proto__'' False s1)"
  have "reachable s1"
    using reachable.step[OF reachable.new[of no_options], of "Put ''__proto__'' (Some (JNum 1)) (TNum 100) 5"]
    by (simp add: s1_def)
  from reachable.step[OF this, of "Remove ''__proto__'' False"]
  have r: "reachable s2" by (simp add: s2_def)
  have s1: "s1 = \<lparr>cacheStore = [], cacheStoreProto = Some \<lparr>value = JNum 1, time = 5, expiryAt = Some 105\<rparr>,
      config = defaultConfig, instanceDisposed = False,
      cacheExpirer = \<lparr>queue = [((105, ''__proto__''), OnExpire ''__proto__'' \<lparr>value = JNum 1, time = 5, expiryAt = Some 105\<rparr>)],
                     running = True\<rparr>,
      emitted = [FC_ADD ''__proto__'' \<lparr>value = JNum 1, time = 5, expiryAt = Some 105\<rparr>]\<rparr>"
    by (simp add: s1_def eval_defs)
  have "fst (remove_key ''__proto__'' False s1) = Inr True"
    "fst (get ''__proto__'' s2) = Inr (Target \<lparr>value = JNum 1, time = 5, expiryAt = Some 105\<rparr>)"
    "queue (cacheExpirer s2) = []"
    "fst (get ''__proto__'' (tick 105 s1)) = Inr (Target \<lparr>value = JNum 1, time = 5, expiryAt = Some 105\<rparr>)"
    unfolding s2_def s1 by (simp_all add: eval_defs)
  with r show ?thesis
    unfolding Let_def s1_def[symmetric] s2_def[symmetric] by blast
qed

section \<open>Putting a key again\<close>

text \<open>
  Claim C2. In a reachable state that is not disposed, let \<open>key\<close> have the live entry
  \<open>old\<close>. Then \<^verbatim>\<open>put\<close> installs the new entry in the state \<open>mid\<close> that
  \<^verbatim>\<open>remove(key)\<close> leaves, in which the own property of the key is deleted, a read of
  the key yields no entry any more (but for the key \<^verbatim>\<open>__proto__\<close>, whose entry is the
  prototype of the store until the assignment of \<^verbatim>\<open>put\<close> replaces it) and no
  registration for the key is left. Afterwards a read of the key yields the new entry, the
  only registration for the key is the new entry's, and no sequence of ticks before the
  new deadline removes the entry. In particular, when the old entry was put with TTL 50
  at time \<open>t0\<close> and the key is put again with TTL 10000 at a time \<open>now\<close> with
  \<open>t0 \<le> now < t0 + 50\<close>, there is no registration for the key at \<open>t0 + 50\<close>, and
  the tick at \<open>t0 + 50\<close> leaves the new entry in the store.
\<close>

theorem reput_cancels_old_expiry:
  assumes "reachable s" and "\<not> instanceDisposed s" and "store_get key s = Target old"
  shows "(let mid = snd (remove_key key False s);
              new = new_entry val expiryIn now s;
              s' = snd (put key val expiryIn now s)
          in put key val expiryIn now s = (Inr new, install key new mid) \<and>
             cacheStore mid = AList.delete key (cacheStore s) \<and>
             key \<notin> fst ` set (cacheStore mid) \<and>
             (key \<noteq> ''__proto__'' \<longrightarrow> (\<forall>e. store_get key mid \<noteq> Target e)) \<and>
             (\<forall>t. registered mid t key = None) \<and>
             store_get key s' = Target new \<and>
             (\<forall>t. registered s' t key =
                (if expiryAt new = Some t \<and> t \<noteq> 0 then Some (OnExpire key new) else None)) \<and>
             (\<forall>Ts. (\<forall>T \<in> set Ts. \<forall>t. expiryAt new = Some t \<longrightarrow> T < t) \<longrightarrow>
                store_get key (fold tick Ts s') = Target new) \<and>
             (\<forall>t0. expiryAt old = Some (t0 + 50) \<and> expiryIn = TNum 10000 \<and> t0 \<le> now \<and> now < t0 + 50 \<longrightarrow>
                registered s' (t0 + 50) key = None \<and>
                store_get key (tick (t0 + 50) s') = Target new))"
proof -
  define mid where "mid = snd (remove_key key False s)"
  define new where "new = new_entry val expiryIn now s"
  define s' where "s' = snd (put key val expiryIn now s)"
  from assms(1) have c: "consistent s" by (rule reachable_consistent)
  from put_key_facts[OF c assms(2), of key val expiryIn now]
  have f: "put key val expiryIn now s = (Inr new, install key new mid)"
    "key \<notin> fst ` set (cacheStore mid)"
    "\<And>t. registered mid t key = None"
    "store_get key s' = Target new"
    "\<And>t. registered s' t key =
        (if expiryAt new = Some t \<and> t \<noteq> 0 then Some (OnExpire key new) else None)"
    "consistent s'"
    unfolding mid_def new_def s'_def by blast+
  have a1: "put key val expiryIn now s = (Inr new, install key new mid)" by (rule f(1))
  have a2: "cacheStore mid = AList.delete key (cacheStore s)"
    using assms(2,3) by (simp add: mid_def remove_key_state)
  have a3: "key \<notin> fst ` set (cacheStore mid)" by (rule f(2))
  have a3': "store_get key mid \<noteq> Target e" if "key \<noteq> ''__proto__''" for e
    using a3 that by (auto simp: store_get_Target_iff map_of_eq_None_iff[symmetric])
  have a4: "\<forall>t. registered mid t key = None" by (simp add: f(3))
  have a5: "store_get key s' = Target new" by (rule f(4))
  have a6: "\<forall>t. registered s' t key =
      (if expiryAt new = Some t \<and> t \<noteq> 0 then Some (OnExpire key new) else None)"
    by (simp add: f(5))
  have a7: "store_get key (fold tick Ts s') = Target new"
    if "\<forall>T \<in> set Ts. \<forall>t. expiryAt new = Some t \<longrightarrow> T < t" for Ts
    using f(6) a5 that by (rule ticks_keep_entry)
  have a8: "registered s' (t0 + 50) key = None \<and> store_get key (tick (t0 + 50) s') = Target new"
    if h: "expiryAt old = Some (t0 + 50) \<and> expiryIn = TNum 10000 \<and> t0 \<le> now \<and> now < t0 + 50" for t0
  proof -
    from h have e: "expiryAt new = Some (now + 10000)"
      by (simp add: new_def expiryAt_new_entry expiryAt_for_truthy)
    with h have "registered s' (t0 + 50) key = None" by (simp add: f(5))
    moreover from e h have "\<forall>T \<in> set [t0 + 50]. \<forall>t. expiryAt new = Some t \<longrightarrow> T < t" by simp
    from a7[OF this] have "store_get key (tick (t0 + 50) s') = Target new" by simp
    ultimately show ?thesis by simp
  qed
  from a1 a2 a3 a3' a4 a5 a6 a7 a8 show ?thesis
    unfolding Let_def mid_def[symmetric] new_def[symmetric] s'_def[symmetric] by blast
qed

text \<open>
  The scenario of claim C2 from a new cache: put \<open>k\<close> with TTL 50 at time 0, put it again
  with TTL 10000 at time 10, tick at time 50.
\<close>

theorem reput_cancels_old_expiry_witness:
  "reachable (snd (put ''k'' (Some (JNum 1)) (TNum 50) 0 (flashCache no_options))) \<and>
   \<not> instanceDisposed (snd (put ''k'' (Some (JNum 1)) (TNum 50) 0 (flashCache no_options))) \<and>
   store_get ''k'' (snd (put ''k'' (Some (JNum 1)) (TNum 50) 0 (flashCache no_options))) =
     Target \<lparr>value = JNum 1, time = 0, expiryAt = Some 50\<rparr> \<and>
   registered
     (snd (put ''k'' (Some (JNum 2)) (TNum 10000) 10
        (snd (put ''k'' (Some (JNum 1)) (TNum 50) 0 (flashCache no_options))))) 50 ''k'' = None \<and>
   store_get ''k''
     (tick 50 (snd (put ''k'' (Some (JNum 2)) (TNum 10000) 10
        (snd (put ''k'' (Some (JNum 1)) (TNum 50) 0 (flashCache no_options)))))) =
     Target \<lparr>value = JNum 2, time = 10, expiryAt = Some 10010\<rparr>"
proof -
  define s1 where "s1 = snd (put ''k'' (Some (JNum 1)) (TNum 50) 0 (flashCache no_options))"
  have r: "reachable s1"
    using reachable.step[OF reachable.new[of no_options], of "Put ''k'' (Some (JNum 1)) (TNum 50) 0"]
    by (simp add: s1_def)
  have s1: "s1 = \<lparr>cacheStore = [(''k'', \<lparr>value = JNum 1, time = 0, expiryAt = Some 50\<rparr>)],
                 cacheStoreProto = None, config = defaultConfig, instanceDisposed = False,
                 cacheExpirer = \<lparr>queue = [((50, ''k''), OnExpire ''k'' \<lparr>value = JNum 1, time = 0, expiryAt = Some 50\<rparr>)],
                                running = True\<rparr>,
                 emitted = [FC_ADD ''k'' \<lparr>value = JNum 1, time = 0, expiryAt = Some 50\<rparr>]\<rparr>"
    by (simp add: s1_def eval_defs)
  have nd: "\<not> instanceDisposed s1" by (simp add: s1)
  have g: "store_get ''k'' s1 = Target \<lparr>value = JNum 1, time = 0, expiryAt = Some 50\<rparr>"
    by (simp add: s1 store_get_def)
  have n: "new_entry (Some (JNum 2)) (TNum 10000) 10 s1 = \<lparr>value = JNum 2, time = 10, expiryAt = Some 10010\<rparr>"
    by (simp add: new_entry_def expiryAt_for_def)
  from reput_cancels_old_expiry[OF r nd g, of "Some (JNum 2)" "TNum 10000" 10]
  have "\<forall>t0. expiryAt \<lparr>value = JNum 1, time = 0, expiryAt = Some 50\<rparr> = Some (t0 + 50) \<and>
           TNum 10000 = TNum 10000 \<and> t0 \<le> 10 \<and> 10 < t0 + 50 \<longrightarrow>
           registered (snd (put ''k'' (Some (JNum 2)) (TNum 10000) 10 s1)) (t0 + 50) ''k'' = None \<and>
           store_get ''k'' (tick (t0 + 50) (snd (put ''k'' (Some (JNum 2)) (TNum 10000) 10 s1))) =
             Target (new_entry (Some (JNum 2)) (TNum 10000) 10 s1)"
    unfolding Let_def by blast
  from this[rule_format, of 0] r nd g show ?thesis
    unfolding s1_def[symmetric] by (simp add: n)
qed

section \<open>Entries without expiry\<close>

text \<open>
  Claim C3. In a reachable state that is not disposed, \<^verbatim>\<open>put(key, val, expiryIn)\<close>
  returns the entry it stores under \<open>key\<close>. Let \<open>ttl\<close> be \<open>expiryIn\<close>, or the configured
  default when \<open>expiryIn\<close> is left out. When \<open>ttl\<close> is falsy (undefined, null, false or 0),
  the entry has \<open>expiryAt = null\<close>, the installation leaves the Expirer as the removal of
  the old entry left it, the index holds no registration for the key, and the entry
  stays in the store through every sequence of operations and ticks, at any times,
  that contains no put or remove of that key and no dispose. When \<open>ttl\<close> is a number
  \<open>n\<close> other than 0, the entry has \<open>expiryAt = now + n\<close>.
\<close>

theorem no_ttl_never_expires:
  assumes "reachable s" and "\<not> instanceDisposed s"
  shows "(let ttl = (if expiryIn = TUndefined then defaultCacheExpiryIn (config s) else expiryIn);
              mid = snd (remove_key key False s);
              new = new_entry val expiryIn now s;
              s' = snd (put key val expiryIn now s)
          in put key val expiryIn now s = (Inr new, s') \<and>
             store_get key s' = Target new \<and>
             (\<not> truthy_expiry_in ttl \<longrightarrow>
                expiryAt new = None \<and>
                cacheExpirer s' = cacheExpirer mid \<and>
                (\<forall>t. registered s' t key = None) \<and>
                (\<forall>ops. (\<forall>op \<in> set ops. \<not> touches key op) \<longrightarrow>
                   store_get key (fold exec ops s') = Target new)) \<and>
             (\<forall>n. ttl = TNum n \<and> n \<noteq> 0 \<longrightarrow> expiryAt new = Some (now + n)))"
proof -
  define ttl where "ttl = (if expiryIn = TUndefined then defaultCacheExpiryIn (config s) else expiryIn)"
  define mid where "mid = snd (remove_key key False s)"
  define new where "new = new_entry val expiryIn now s"
  define s' where "s' = snd (put key val expiryIn now s)"
  from assms(1) have c: "consistent s" by (rule reachable_consistent)
  from put_key_facts[OF c assms(2), of key val expiryIn now]
  have f: "put key val expiryIn now s = (Inr new, install key new mid)"
    "key \<notin> fst ` set (cacheStore mid)"
    "\<And>t. registered mid t key = None"
    "store_get key s' = Target new"
    "\<And>t. registered s' t key =
        (if expiryAt new = Some t \<and> t \<noteq> 0 then Some (OnExpire key new) else None)"
    "consistent s'"
    unfolding mid_def new_def s'_def by blast+
  have ex: "expiryAt new = expiryAt_for ttl now"
    by (simp add: new_def ttl_def expiryAt_new_entry)
  have s': "s' = install key new mid" by (simp add: s'_def f(1))
  have b1: "put key val expiryIn now s = (Inr new, s')" by (simp add: f(1) s')
  have b2: "store_get key s' = Target new" by (rule f(4))
  have b3: "expiryAt new = None \<and> cacheExpirer s' = cacheExpirer mid \<and>
      (\<forall>t. registered s' t key = None) \<and>
      (\<forall>ops. (\<forall>op \<in> set ops. \<not> touches key op) \<longrightarrow> store_get key (fold exec ops s') = Target new)"
    if h: "\<not> truthy_expiry_in ttl"
  proof -
    from h have n: "expiryAt new = None" by (simp add: ex expiryAt_for_falsy)
    have "store_get key (fold exec ops s') = Target new"
      if "\<forall>op \<in> set ops. \<not> touches key op" for ops
      using f(6) b2 n that by (rule execs_keep_entry)
    with n show ?thesis by (simp add: s' cacheExpirer_install_no_expiry f(5)[unfolded s'])
  qed
  have b4: "\<forall>n. ttl = TNum n \<and> n \<noteq> 0 \<longrightarrow> expiryAt new = Some (now + n)"
    by (simp add: ex expiryAt_for_truthy)
  from b1 b2 b3 b4 show ?thesis
    unfolding Let_def ttl_def[symmetric] mid_def[symmetric] new_def[symmetric] s'_def[symmetric]
    by blast
qed

text \<open>
  Claim C3 on a new cache with the default configuration: an entry put with TTL 0
  survives ticks at times 1000000 and 99999999; without a third argument the default
  TTL 60000 applies.
\<close>

theorem no_ttl_never_expires_witness:
  "reachable (flashCache no_options) \<and>
   \<not> instanceDisposed (flashCache no_options) \<and>
   \<not> truthy_expiry_in (TNum 0) \<and> \<not> truthy_expiry_in TFalse \<and>
   put ''a'' (Some (JNum 1)) (TNum 0) 5 (flashCache no_options) =
     (Inr \<lparr>value = JNum 1, time = 5, expiryAt = None\<rparr>,
      snd (put ''a'' (Some (JNum 1)) (TNum 0) 5 (flashCache no_options))) \<and>
   cacheExpirer (snd (put ''a'' (Some (JNum 1)) (TNum 0) 5 (flashCache no_options))) =
     \<lparr>queue = [], running = True\<rparr> \<and>
   store_get ''a''
     (fold exec [Tick 1000000, Get ''a'', Put ''b'' (Some JNull) (TNum 10) 1000001, Tick 99999999]
        (snd (put ''a'' (Some (JNum 1)) (TNum 0) 5 (flashCache no_options)))) =
     Target \<lparr>value = JNum 1, time = 5, expiryAt = None\<rparr> \<and>
   expiryAt (new_entry (Some (JNum 1)) TUndefined 5 (flashCache no_options)) = Some 60005"
proof -
  have r: "reachable (flashCache no_options)" by (rule reachable.new)
  have nd: "\<not> instanceDisposed (flashCache no_options)" by (simp add: flashCache_def)
  have n: "new_entry (Some (JNum 1)) (TNum 0) 5 (flashCache no_options) =
      \<lparr>value = JNum 1, time = 5, expiryAt = None\<rparr>"
    by (simp add: new_entry_def expiryAt_for_def)
  have m: "cacheExpirer (snd (remove_key ''a'' False (flashCache no_options))) = \<lparr>queue = [], running = True\<rparr>"
    by (simp add: eval_defs)
  have t: "\<forall>op \<in> set [Tick 1000000, Get ''a'', Put ''b'' (Some JNull) (TNum 10) 1000001, Tick 99999999].
      \<not> touches ''a'' op" by simp
  from no_ttl_never_expires[OF r nd, of "TNum 0" "''a''" "Some (JNum 1)" 5]
  have a: "put ''a'' (Some (JNum 1)) (TNum 0) 5 (flashCache no_options) =
      (Inr \<lparr>value = JNum 1, time = 5, expiryAt = None\<rparr>,
       snd (put ''a'' (Some (JNum 1)) (TNum 0) 5 (flashCache no_options)))"
    and b: "cacheExpirer (snd (put ''a'' (Some (JNum 1)) (TNum 0) 5 (flashCache no_options))) =
      \<lparr>queue = [], running = True\<rparr>"
    and c: "\<forall>ops. (\<forall>op \<in> set ops. \<not> touches ''a'' op) \<longrightarrow>
       store_get ''a'' (fold exec ops (snd (put ''a'' (Some (JNum 1)) (TNum 0) 5 (flashCache no_options)))) =
       Target \<lparr>value = JNum 1, time = 5, expiryAt = None\<rparr>"
    unfolding Let_def n m by simp_all
  from no_ttl_never_expires[OF r nd, of TUndefined "''a''" "Some (JNum 1)" 5]
  have d: "expiryAt (new_entry (Some (JNum 1)) TUndefined 5 (flashCache no_options)) = Some 60005"
    unfolding Let_def by (simp add: flashCache_def no_options_def defaultConfig_def)
  from c t have "store_get ''a''
     (fold exec [Tick 1000000, Get ''a'', Put ''b'' (Some JNull) (TNum 10) 1000001, Tick 99999999]
        (snd (put ''a'' (Some (JNum 1)) (TNum 0) 5 (flashCache no_options)))) =
     Target \<lparr>value = JNum 1, time = 5, expiryAt = None\<rparr>"
    by blast
  with a b d r nd show ?thesis by simp
qed

section \<open>Eviction\<close>

text \<open>
  Claim C4. The claim: when the callback that \<^verbatim>\<open>put\<close> registered fires, the events
  expired and removed are raised in this order and a get of the key then returns null.
  Lemma \<open>eviction_events\<close> shows the first part for every key, and lemma
  \<open>eviction_of_plain_key\<close> the second for plain keys. For a key that names a method
  of \<^verbatim>\<open>Object.prototype\<close> the theorem evaluates the code: after \<^verbatim>\<open>put("toString", 1, 100)\<close>
  at time 0 and the tick at time 100, both events have been raised and the store has no
  own property, and a get of the key returns the inherited method and raises a fetched
  event.
\<close>

theorem eviction_of_inherited_name:
  "(let s1 = snd (put ''toString'' (Some (JNum 1)) (TNum 100) 0 (flashCache no_options));
        s2 = tick 100 s1
    in emitted s2 =
         [FC_ADD ''toString'' \<lparr>value = JNum 1, time = 0, expiryAt = Some 100\<rparr>,
          FC_EXPIRY ''toString'' \<lparr>value = JNum 1, time = 0, expiryAt = Some 100\<rparr>,
          FC_REMOVE ''toString'' (Target \<lparr>value = JNum 1, time = 0, expiryAt = Some 100\<rparr>)] \<and>
       cacheStore s2 = [] \<and>
       get ''toString'' s2 =
         (Inr (Builtin ''toString''), emit (FC_GET ''toString'' (Builtin ''toString'')) s2))"
  by (simp add: eval_defs)

section \<open>Use after dispose\<close>

text \<open>
  Claim C5. Once \<^verbatim>\<open>dispose()\<close> has completed on an instance, in the state \<open>s\<close> that any
  further operations and ticks leave, each of put, get, remove and dispose throws the
  error of \<^verbatim>\<open>checkIfInstanceIsDisposed\<close> and leaves \<open>s\<close> as it is: the store, the
  Expirer's registrations, the disposed flag and the emitted events are unchanged.
\<close>

theorem use_after_dispose:
  assumes "\<not> instanceDisposed s0" and "s = fold exec ops (snd (dispose s0))"
  shows "put key val expiryIn now s = (Inl UseAfterDispose, s) \<and>
         get key s = (Inl UseAfterDispose, s) \<and>
         remove_key key shouldEmit s = (Inl UseAfterDispose, s) \<and>
         dispose s = (Inl UseAfterDispose, s)"
proof -
  from assms(1) have "instanceDisposed (snd (dispose s0))" by (simp add: dispose_state)
  then have "instanceDisposed s" unfolding assms(2) by (rule instanceDisposed_execs)
  then show ?thesis by (simp add: disposed_fails)
qed

theorem use_after_dispose_witness:
  "\<not> instanceDisposed (flashCache no_options) \<and>
   put ''a'' (Some (JNum 1)) TUndefined 7
     (fold exec [Get ''a'', Tick 100] (snd (dispose (flashCache no_options)))) =
     (Inl UseAfterDispose, fold exec [Get ''a'', Tick 100] (snd (dispose (flashCache no_options)))) \<and>
   get ''a'' (fold exec [Get ''a'', Tick 100] (snd (dispose (flashCache no_options)))) =
     (Inl UseAfterDispose, fold exec [Get ''a'', Tick 100] (snd (dispose (flashCache no_options)))) \<and>
   remove_key ''a'' True (fold exec [Get ''a'', Tick 100] (snd (dispose (flashCache no_options)))) =
     (Inl UseAfterDispose, fold exec [Get ''a'', Tick 100] (snd (dispose (flashCache no_options)))) \<and>
   dispose (fold exec [Get ''a'', Tick 100] (snd (dispose (flashCache no_options)))) =
     (Inl UseAfterDispose, fold exec [Get ''a'', Tick 100] (snd (dispose (flashCache no_options)))) \<and>
   emitted (fold exec [Get ''a'', Tick 100] (snd (dispose (flashCache no_options)))) = [FC_CLEAR]"
proof -
  have nd: "\<not> instanceDisposed (flashCache no_options)" by (simp add: flashCache_def)
  have e: "emitted (fold exec [Get ''a'', Tick 100] (snd (dispose (flashCache no_options)))) = [FC_CLEAR]"
    by (simp add: eval_defs)
  from use_after_dispose[OF nd refl, where ops = "[Get ''a'', Tick 100]"] nd e show ?thesis by blast
qed

section \<open>Dispose\<close>

text \<open>
  On an instance that is not disposed, \<^verbatim>\<open>dispose()\<close> returns true and leaves the state
  that differs from the old one in that the store has no own property left, the
  Expirer's index is empty and its loop stopped, the disposed flag is set, and the one
  event cleared has been appended to the emitted events. No sequence of operations and
  ticks changes that state, and put, get, remove and dispose fail in it. Lemma
  \<open>fold_remove_key\<close> holds for the keys in any order, so the result does not depend on
  the enumeration order of \<^verbatim>\<open>Object.keys\<close>. The component \<open>cacheStoreProto\<close> is left
  as it was.
\<close>

lemma dispose_leaves:
  assumes "\<not> instanceDisposed s"
  shows "(let s' = s\<lparr>cacheStore := [], cacheExpirer := \<lparr>queue = [], running = False\<rparr>,
                    instanceDisposed := True, emitted := emitted s @ [FC_CLEAR]\<rparr>
          in dispose s = (Inr True, s') \<and>
             store_keys s' = [] \<and>
             (\<forall>ops. fold exec ops s' = s') \<and>
             (\<forall>key val expiryIn now. put key val expiryIn now s' = (Inl UseAfterDispose, s')) \<and>
             (\<forall>key. get key s' = (Inl UseAfterDispose, s')) \<and>
             (\<forall>key shouldEmit. remove_key key shouldEmit s' = (Inl UseAfterDispose, s')) \<and>
             dispose s' = (Inl UseAfterDispose, s'))"
  using assms
  by (simp add: Let_def dispose_state store_keys_def disposed_fails disposed_stays_fold)

text \<open>
  Claim C6. The claim: \<^verbatim>\<open>dispose()\<close> removes every key, and afterwards the store holds
  no entries. Lemma \<open>dispose_leaves\<close> shows this for the own properties of the store,
  together with the one event cleared, the disposal of the Expirer, the flag and the
  result. It fails for an entry put under \<^verbatim>\<open>__proto__\<close>, which is the prototype of the
  store and no key of \<^verbatim>\<open>Object.keys\<close>. The theorem evaluates the code there: after
  \<^verbatim>\<open>put("__proto__", 1, 100)\<close> at time 5, a get returns the entry and the store has no
  own key; \<^verbatim>\<open>dispose()\<close> returns true, raises cleared and empties the Expirer, and in
  the state it leaves the entry is still the prototype of the store, so that a read of
  \<^verbatim>\<open>__proto__\<close> yields the entry and a read of \<^verbatim>\<open>value\<close> yields its value 1.
\<close>

theorem proto_entry_survives_dispose:
  "(let s1 = snd (put ''__proto__'' (Some (JNum 1)) (TNum 100) 5 (flashCache no_options));
        s2 = snd (dispose s1)
    in reachable s1 \<and> reachable s2 \<and>
       \<not> instanceDisposed s1 \<and>
       fst (get ''__proto__'' s1) = Inr (Target \<lparr>value = JNum 1, time = 5, expiryAt = Some 105\<rparr>) \<and>
       store_keys s1 = [] \<and>
       fst (dispose s1) = Inr True \<and>
       emitted s2 =
         [FC_ADD ''__proto__'' \<lparr>value = JNum 1, time = 5, expiryAt = Some 105\<rparr>, FC_CLEAR] \<and>
       cacheExpirer s2 = \<lparr>queue = [], running = False\<rparr> \<and>
       cacheStoreProto s2 = Some \<lparr>value = JNum 1, time = 5, expiryAt = Some 105\<rparr> \<and>
       store_get ''__proto__'' s2 = Target \<lparr>value = JNum 1, time = 5, expiryAt = Some 105\<rparr> \<and>
       store_get ''value'' s2 = Plain (JNum 1))"
proof -
  define s1 where "s1 = snd (put ''__proto__'' (Some (JNum 1)) (TNum 100) 5 (flashCache no_options))"
  define s2 where "s2 = snd (dispose s1)"
  have r1: "reachable s1"
    using reachable.step[OF reachable.new[of no_options], of "Put ''__proto__'' (Some (JNum 1)) (TNum 100) 5"]
    by (simp add: s1_def)
  from reachable.step[OF this, of Dispose]
  have r2: "reachable s2" by (simp add: s2_def)
  have s1: "s1 = \<lparr>cacheStore = [], cacheStoreProto = Some \<lparr>value = JNum 1, time = 5, expiryAt = Some 105\<rparr>,
      config = defaultConfig, instanceDisposed = False,
      cacheExpirer = \<lparr>queue = [((105, ''__proto__''), OnExpire ''__proto__'' \<lparr>value = JNum 1, time = 5, expiryAt = Some 105\<rparr>)],
                     running = True\<rparr>,
      emitted = [FC_ADD ''__proto__'' \<lparr>value = JNum 1, time = 5, expiryAt = Some 105\<rparr>]\<rparr>"
    by (simp add: s1_def eval_defs)
  have "\<not> instanceDisposed s1"
    "fst (get ''__proto__'' s1) = Inr (Target \<lparr>value = JNum 1, time = 5, expiryAt = Some 105\<rparr>)"
    "store_keys s1 = []"
    "fst (dispose s1) = Inr True"
    "emitted s2 = [FC_ADD ''__proto__'' \<lparr>value = JNum 1, time = 5, expiryAt = Some 105\<rparr>, FC_CLEAR]"
    "cacheExpirer s2 = \<lparr>queue = [], running = False\<rparr>"
    "cacheStoreProto s2 = Some \<lparr>value = JNum 1, time = 5, expiryAt = Some 105\<rparr>"
    "store_get ''__proto__'' s2 = Target \<lparr>value = JNum 1, time = 5, expiryAt = Some 105\<rparr>"
    "store_get ''value'' s2 = Plain (JNum 1)"
    unfolding s2_def s1 by (simp_all add: eval_defs)
  with r1 r2 show ?thesis
    unfolding Let_def s1_def[symmetric] s2_def[symmetric] by blast
qed

section \<open>Remove\<close>

text \<open>
  Claim C7. The claim: \<^verbatim>\<open>remove\<close> returns false and changes nothing for a key without
  a live entry, so that two removes of a key in a row return true and then false and
  raise at most one removed event. Lemma \<open>remove_of_plain_key_twice\<close> shows this for plain
  keys. For a key that names a method of \<^verbatim>\<open>Object.prototype\<close> the theorem evaluates the
  code on a new cache: both calls of \<^verbatim>\<open>remove("toString", true)\<close> return true, and each
  raises a removed event whose data is the inherited method.
\<close>

theorem remove_inherited_name_twice:
  "(let r1 = remove_key ''toString'' True (flashCache no_options);
        r2 = remove_key ''toString'' True (snd r1)
    in fst r1 = Inr True \<and> fst r2 = Inr True \<and>
       emitted (snd r2) =
         [FC_REMOVE ''toString'' (Builtin ''toString''), FC_REMOVE ''toString'' (Builtin ''toString'')])"
  by (simp add: eval_defs)

section \<open>Get\<close>

text \<open>
  Claim C8. The claim: \<^verbatim>\<open>get\<close> returns null and raises no event for an absent key, and
  changes neither the store nor the registrations. Lemma \<open>get_frame\<close> shows the second
  part for every key, and lemma \<open>get_of_plain_key\<close> the first for plain keys. For a key
  that names a method of \<^verbatim>\<open>Object.prototype\<close> the theorem evaluates the code on a new
  cache, where no key was ever put: \<^verbatim>\<open>get("toString")\<close> returns the inherited method and
  raises a fetched event.
\<close>

theorem get_inherited_name:
  "get ''toString'' (flashCache no_options) =
     (Inr (Builtin ''toString''),
      (flashCache no_options)\<lparr>emitted := [FC_GET ''toString'' (Builtin ''toString'')]\<rparr>)"
  by (simp add: eval_defs)

section \<open>Put\<close>

text \<open>
  Claim C9. On an instance that is not disposed, \<^verbatim>\<open>put(key, val, expiryIn)\<close> at time
  \<open>now\<close> returns an entry \<open>e\<close> that holds the value (the empty string when the value is
  left out), the time \<open>now\<close> and the \<open>expiryAt\<close> computed from \<open>expiryIn\<close> or the configured
  default; a read of \<open>key\<close> in the state it leaves yields \<open>e\<close>; and the events emitted
  are those emitted before followed by the one event added with payload \<open>key\<close> and \<open>e\<close>.
\<close>

theorem put_returns_installed_entry:
  assumes "\<not> instanceDisposed s"
  shows "\<exists>e s'. put key val expiryIn now s = (Inr e, s') \<and>
           value e = (case val of None \<Rightarrow> JStr [] | Some v \<Rightarrow> v) \<and>
           time e = now \<and>
           expiryAt e = expiryAt_for (if expiryIn = TUndefined then defaultCacheExpiryIn (config s) else expiryIn) now \<and>
           store_get key s' = Target e \<and>
           emitted s' = emitted s @ [FC_ADD key e]"
  using assms
  by (simp add: put_install store_get_install store_get_store_set emitted_install new_entry_def)

theorem put_returns_installed_entry_witness:
  "\<not> instanceDisposed (flashCache no_options) \<and>
   (\<exists>e s'. put ''a'' (Some (JStr ''x'')) TUndefined 5 (flashCache no_options) = (Inr e, s') \<and>
      value e = JStr ''x'' \<and> time e = 5 \<and> expiryAt e = Some 60005 \<and>
      store_get ''a'' s' = Target e \<and> emitted s' = [FC_ADD ''a'' e])"
proof -
  have nd: "\<not> instanceDisposed (flashCache no_options)" by (simp add: flashCache_def)
  from put_returns_installed_entry[OF nd, of "''a''" "Some (JStr ''x'')" TUndefined 5] nd
  show ?thesis by (simp add: flashCache_def no_options_def defaultConfig_def expiryAt_for_def)
qed

section \<open>Keys inherited from the prototype\<close>

text \<open>
  Claim C10. On an instance that is not disposed, for a key that names a method of
  \<^verbatim>\<open>Object.prototype\<close> (such as \<^verbatim>\<open>constructor\<close> or \<^verbatim>\<open>toString\<close>) and is not an own
  property of the store, \<^verbatim>\<open>get\<close> returns the inherited method, not null, and leaves the
  state it found with the one event fetched, whose data is the method, appended to the
  emitted events; and \<^verbatim>\<open>remove\<close> returns true and leaves the state it found, with the
  one event removed appended when it was asked to notify and with nothing changed
  otherwise.
\<close>

theorem inherited_names_are_present:
  assumes "\<not> instanceDisposed s" and "key \<in> set object_prototype_methods"
    and "key \<notin> fst ` set (cacheStore s)"
  shows "get key s = (Inr (Builtin key), s\<lparr>emitted := emitted s @ [FC_GET key (Builtin key)]\<rparr>) \<and>
         emitted (snd (get key s)) = emitted s @ [FC_GET key (Builtin key)] \<and>
         fst (get key s) \<noteq> Inr (Plain JNull) \<and>
         remove_key key shouldEmit s =
           (Inr True,
            if shouldEmit then s\<lparr>emitted := emitted s @ [FC_REMOVE key (Builtin key)]\<rparr> else s) \<and>
         emitted (snd (remove_key key True s)) = emitted s @ [FC_REMOVE key (Builtin key)] \<and>
         emitted (snd (remove_key key False s)) = emitted s"
proof -
  from assms(3) have "map_of (cacheStore s) key = None" by (simp add: map_of_eq_None_iff)
  with assms(2) have g: "store_get key s = Builtin key"
    by (auto simp: store_get_def prototype_get_def object_prototype_get_def
        object_prototype_methods_def split: option.split)
  have d: "AList.delete key (cacheStore s) = cacheStore s"
    using assms(3) by simp
  from assms(1) g have "get key s = (Inr (Builtin key), s\<lparr>emitted := emitted s @ [FC_GET key (Builtin key)]\<rparr>)"
    by (simp add: get_def checkIfInstanceIsDisposed_def Let_def emit_def)
  moreover from assms(1) g d have "remove_key key shouldEmit s =
      (Inr True, if shouldEmit then s\<lparr>emitted := emitted s @ [FC_REMOVE key (Builtin key)]\<rparr> else s)" for shouldEmit
    by (simp add: remove_key_def checkIfInstanceIsDisposed_def Let_def emit_def store_delete_def
        expirer_remove_def)
  ultimately show ?thesis by simp
qed

theorem inherited_names_are_present_witness:
  "\<not> instanceDisposed (flashCache no_options) \<and>
   ''constructor'' \<in> set object_prototype_methods \<and>
   ''constructor'' \<notin> fst ` set (cacheStore (flashCache no_options)) \<and>
   get ''constructor'' (flashCache no_options) =
     (Inr (Builtin ''constructor''),
      (flashCache no_options)\<lparr>emitted := [FC_GET ''constructor'' (Builtin ''constructor'')]\<rparr>) \<and>
   emitted (snd (get ''constructor'' (flashCache no_options))) =
     [FC_GET ''constructor'' (Builtin ''constructor'')] \<and>
   fst (get ''constructor'' (flashCache no_options)) \<noteq> Inr (Plain JNull) \<and>
   remove_key ''constructor'' True (flashCache no_options) =
     (Inr True,
      (flashCache no_options)\<lparr>emitted := [FC_REMOVE ''constructor'' (Builtin ''constructor'')]\<rparr>) \<and>
   remove_key ''constructor'' False (flashCache no_options) = (Inr True, flashCache no_options)"
proof -
  have h: "\<not> instanceDisposed (flashCache no_options)"
    "''constructor'' \<in> set object_prototype_methods"
    "''constructor'' \<notin> fst ` set (cacheStore (flashCache no_options))"
    by (simp_all add: flashCache_def object_prototype_methods_def)
  have e: "emitted (flashCache no_options) = []" by (simp add: flashCache_def)
  from inherited_names_are_present[OF h, of True] inherited_names_are_present[OF h, of False] h e
  show ?thesis by simp
qed

end
